theory Spec2Isabelle
  imports Main "HOL-Library.Sublist"
begin

section \<open>The blocking queue of the standard library\<close>

text \<open>
  \<^verbatim>\<open>producer_consumer.py\<close> hands its items over through \<^verbatim>\<open>queue.Queue\<close> of the Python
  standard library. The three fields the program depends on are kept: \<^verbatim>\<open>maxsize\<close>, the
  deque \<^verbatim>\<open>queue\<close> and the counter \<^verbatim>\<open>unfinished_tasks\<close>. Every method body of the library runs
  under the queue's mutex, so a method is one atomic action. A method that waits on a
  condition (\<^verbatim>\<open>put\<close> on a full queue, \<^verbatim>\<open>get\<close> on an empty one, \<^verbatim>\<open>join\<close> while tasks are
  unfinished) has not returned yet: the model gives \<open>None\<close> for it, and the calling thread
  cannot take its step.
\<close>

datatype error = ValueError | LogError

record 'a Queue =
  maxsize :: int
  queue :: "'a list"
  unfinished_tasks :: int

definition Queue_init :: "int \<Rightarrow> 'a Queue" where
  "Queue_init m = \<lparr>maxsize = m, queue = [], unfinished_tasks = 0\<rparr>"

definition qsize :: "'a Queue \<Rightarrow> nat" where
  "qsize q = length (queue q)"

text \<open>
  \<^verbatim>\<open>put\<close>: \<^verbatim>\<open>if self.maxsize > 0: while self._qsize() >= self.maxsize: self.not_full.wait()\<close>,
  then the item is appended and \<^verbatim>\<open>unfinished_tasks\<close> is incremented.
\<close>

definition Queue_put :: "'a Queue \<Rightarrow> 'a \<Rightarrow> 'a Queue option" where
  "Queue_put q item =
     (if 0 < maxsize q \<and> maxsize q \<le> int (qsize q) then None
      else Some (q\<lparr>queue := queue q @ [item], unfinished_tasks := unfinished_tasks q + 1\<rparr>))"

text \<open>\<^verbatim>\<open>get\<close>: \<^verbatim>\<open>while not self._qsize(): self.not_empty.wait()\<close>, then \<^verbatim>\<open>popleft\<close>.\<close>

definition Queue_get :: "'a Queue \<Rightarrow> ('a \<times> 'a Queue) option" where
  "Queue_get q =
     (case queue q of
        [] \<Rightarrow> None
      | item # rest \<Rightarrow> Some (item, q\<lparr>queue := rest\<rparr>))"

text \<open>
  \<^verbatim>\<open>task_done\<close>: \<^verbatim>\<open>unfinished = self.unfinished_tasks - 1\<close>; a negative result raises
  \<^verbatim>\<open>ValueError('task_done() called too many times')\<close>; otherwise the counter is stored.
\<close>

definition Queue_task_done :: "'a Queue \<Rightarrow> error + 'a Queue" where
  "Queue_task_done q =
     (let unfinished = unfinished_tasks q - 1
      in if unfinished \<le> 0 \<and> unfinished < 0 then Inl ValueError
         else Inr (q\<lparr>unfinished_tasks := unfinished\<rparr>))"

text \<open>\<^verbatim>\<open>join\<close>: \<^verbatim>\<open>while self.unfinished_tasks: self.all_tasks_done.wait()\<close>.\<close>

definition Queue_join :: "'a Queue \<Rightarrow> unit option" where
  "Queue_join q = (if unfinished_tasks q \<noteq> 0 then None else Some ())"


section \<open>The object store\<close>

text \<open>
  Python lists are mutable objects reached through references, and the constructor is
  handed a reference to the caller's list. The store is the list of all list objects; a
  reference is an index into it, and a new object is allocated at the end.
\<close>

type_synonym ref = nat
type_synonym 'a store = "'a list list"

definition new_list :: "'a store \<Rightarrow> 'a list \<Rightarrow> ref \<times> 'a store" where
  "new_list h xs = (length h, h @ [xs])"


section \<open>The class ProducerConsumer\<close>

text \<open>
  The control points of the three threads. The producer is either at the head of
  \<^verbatim>\<open>for item in self.source\<close> (\<open>PNext i\<close>, the list iterator standing at index \<open>i\<close>) or holds
  an item it is about to \<^verbatim>\<open>put\<close> (\<open>PPut i item\<close>, the iterator already advanced to \<open>i\<close>). The
  consumer evaluates \<^verbatim>\<open>range(len(self.source))\<close> once (\<open>CBegin\<close>), then in iteration \<open>i\<close> of \<open>n\<close>
  it is before \<^verbatim>\<open>get\<close> (\<open>CNext i n\<close>), before \<^verbatim>\<open>destination.append\<close> (\<open>CAppend i n item\<close>) or
  before \<^verbatim>\<open>task_done\<close> (\<open>CTaskDone i n item\<close>). The caller
  of \<^verbatim>\<open>start\<close> walks through the two \<^verbatim>\<open>Thread.start\<close> calls and the three joins.

  A thread that an exception has ended stays at \<open>PRaised k e\<close> (the producer, after \<open>k\<close>
  items were put) or \<open>CRaised e\<close> (the consumer).

  \<^verbatim>\<open>time.sleep\<close> and \<^verbatim>\<open>qsize\<close> inside a log line change none of the fields below and are
  left out, as are the log lines of fixed text at the head and the end of each thread. Of
  \<^verbatim>\<open>start\<close> the part from the creation of the threads (line 78) to the return of
  \<^verbatim>\<open>shared_queue.join()\<close> (line 88) is modelled: the output directory, the output file and
  the two log lines before it, and the report after it, are not.
\<close>

datatype 'a producer_pc =
  PNotStarted | PNext nat | PPut nat 'a | PFinished | PRaised nat error

datatype 'a consumer_pc =
  CNotStarted | CBegin | CNext nat nat | CAppend nat nat 'a | CTaskDone nat nat 'a
  | CFinished | CRaised error

datatype start_pc =
  StartProducer | StartConsumer | JoinProducer | JoinConsumer | JoinQueue | Complete

record 'a ProducerConsumer =
  heap :: "'a store"
  source :: ref
  destination :: ref
  shared_queue :: "'a Queue"
  producer_thread :: "'a producer_pc"
  consumer_thread :: "'a consumer_pc"
  start_pc :: start_pc

text \<open>
  \<^verbatim>\<open>__init__\<close>: \<^verbatim>\<open>self.source = list(source_data)\<close> allocates a new list with the elements of
  the caller's list, \<^verbatim>\<open>self.destination = []\<close> a new empty one, and the queue is built with
  \<^verbatim>\<open>maxsize=queue_capacity\<close>. No argument is checked.
\<close>

definition ProducerConsumer_init :: "'a store \<Rightarrow> ref \<Rightarrow> int \<Rightarrow> 'a ProducerConsumer" where
  "ProducerConsumer_init h source_data queue_capacity =
     (let (src, h1) = new_list h (h ! source_data);
          (dst, h2) = new_list h1 []
      in \<lparr>heap = h2, source = src, destination = dst,
          shared_queue = Queue_init queue_capacity,
          producer_thread = PNotStarted, consumer_thread = CNotStarted,
          start_pc = StartProducer\<rparr>)"

text \<open>
  What a step does that an observer can see: an item entering the queue, an item leaving
  it, an item appended to the destination, a \<^verbatim>\<open>task_done\<close>; every other step is silent.
\<close>

datatype 'a event = Put 'a | Get 'a | Append 'a | TaskDone | Silent

text \<open>
  \<^verbatim>\<open>self.log(message)\<close> prints the message and appends it to the output file. Four log
  lines format an item into the message (lines 36 and 38 of the producer, 53 and 58 of the
  consumer). Formatting the item, encoding it for the console or writing it to the file can
  raise, and nothing catches the exception, so it ends the thread. Whether these calls
  return depends on the item alone; \<open>writable\<close> says for which items they do.
\<close>

definition log :: "('a \<Rightarrow> bool) \<Rightarrow> 'a \<Rightarrow> error + unit" where
  "log writable item = (if writable item then Inr () else Inl LogError)"

text \<open>
  The producer's loop: the iterator yields the next item and line 36 logs it, in one step;
  \<^verbatim>\<open>put\<close> followed by the log of line 38 is the next step.
\<close>

definition producer ::
  "('a \<Rightarrow> bool) \<Rightarrow> 'a ProducerConsumer \<Rightarrow> ('a event \<times> 'a ProducerConsumer) option" where
  "producer writable s =
     (case producer_thread s of
        PNotStarted \<Rightarrow> None
      | PNext i \<Rightarrow>
          (let src = heap s ! source s
           in if i < length src
              then (case log writable (src ! i) of
                      Inl e \<Rightarrow> Some (Silent, s\<lparr>producer_thread := PRaised i e\<rparr>)
                    | Inr u \<Rightarrow> Some (Silent, s\<lparr>producer_thread := PPut (i + 1) (src ! i)\<rparr>))
              else Some (Silent, s\<lparr>producer_thread := PFinished\<rparr>))
      | PPut i item \<Rightarrow>
          (case Queue_put (shared_queue s) item of
             None \<Rightarrow> None
           | Some q \<Rightarrow>
               (case log writable item of
                  Inl e \<Rightarrow> Some (Put item, s\<lparr>shared_queue := q, producer_thread := PRaised i e\<rparr>)
                | Inr u \<Rightarrow> Some (Put item, s\<lparr>shared_queue := q, producer_thread := PNext i\<rparr>)))
      | PFinished \<Rightarrow> None
      | PRaised k e \<Rightarrow> None)"

text \<open>
  The consumer's loop: \<^verbatim>\<open>get\<close> followed by the log of line 53 is one step, the append the
  next, and \<^verbatim>\<open>task_done\<close> followed by the log of line 58 the third.
\<close>

definition consumer ::
  "('a \<Rightarrow> bool) \<Rightarrow> 'a ProducerConsumer \<Rightarrow> ('a event \<times> 'a ProducerConsumer) option" where
  "consumer writable s =
     (case consumer_thread s of
        CNotStarted \<Rightarrow> None
      | CBegin \<Rightarrow> Some (Silent, s\<lparr>consumer_thread := CNext 0 (length (heap s ! source s))\<rparr>)
      | CNext i n \<Rightarrow>
          (if i < n
           then (case Queue_get (shared_queue s) of
                   None \<Rightarrow> None
                 | Some (item, q) \<Rightarrow>
                     (case log writable item of
                        Inl e \<Rightarrow>
                          Some (Get item, s\<lparr>shared_queue := q, consumer_thread := CRaised e\<rparr>)
                      | Inr u \<Rightarrow>
                          Some (Get item,
                                s\<lparr>shared_queue := q, consumer_thread := CAppend i n item\<rparr>)))
           else Some (Silent, s\<lparr>consumer_thread := CFinished\<rparr>))
      | CAppend i n item \<Rightarrow>
          Some (Append item,
                s\<lparr>heap := (heap s)[destination s := heap s ! destination s @ [item]],
                  consumer_thread := CTaskDone i n item\<rparr>)
      | CTaskDone i n item \<Rightarrow>
          (case Queue_task_done (shared_queue s) of
             Inl e \<Rightarrow> Some (Silent, s\<lparr>consumer_thread := CRaised e\<rparr>)
           | Inr q \<Rightarrow>
               (case log writable item of
                  Inl e \<Rightarrow> Some (TaskDone, s\<lparr>shared_queue := q, consumer_thread := CRaised e\<rparr>)
                | Inr u \<Rightarrow>
                    Some (TaskDone, s\<lparr>shared_queue := q, consumer_thread := CNext (i + 1) n\<rparr>)))
      | CFinished \<Rightarrow> None
      | CRaised e \<Rightarrow> None)"

text \<open>\<^verbatim>\<open>Thread.join\<close> returns once the thread has ended, normally or by an exception.\<close>

definition producer_ended :: "'a ProducerConsumer \<Rightarrow> bool" where
  "producer_ended s =
     (case producer_thread s of PFinished \<Rightarrow> True | PRaised k e \<Rightarrow> True | _ \<Rightarrow> False)"

definition consumer_ended :: "'a ProducerConsumer \<Rightarrow> bool" where
  "consumer_ended s =
     (case consumer_thread s of CFinished \<Rightarrow> True | CRaised e \<Rightarrow> True | _ \<Rightarrow> False)"

definition start :: "'a ProducerConsumer \<Rightarrow> ('a event \<times> 'a ProducerConsumer) option" where
  "start s =
     (case start_pc s of
        StartProducer \<Rightarrow> Some (Silent, s\<lparr>producer_thread := PNext 0, start_pc := StartConsumer\<rparr>)
      | StartConsumer \<Rightarrow> Some (Silent, s\<lparr>consumer_thread := CBegin, start_pc := JoinProducer\<rparr>)
      | JoinProducer \<Rightarrow>
          (if producer_ended s then Some (Silent, s\<lparr>start_pc := JoinConsumer\<rparr>) else None)
      | JoinConsumer \<Rightarrow>
          (if consumer_ended s then Some (Silent, s\<lparr>start_pc := JoinQueue\<rparr>) else None)
      | JoinQueue \<Rightarrow>
          (case Queue_join (shared_queue s) of
             None \<Rightarrow> None
           | Some u \<Rightarrow> Some (Silent, s\<lparr>start_pc := Complete\<rparr>))
      | Complete \<Rightarrow> None)"

text \<open>The flag logged at the end: \<^verbatim>\<open>self.source == self.destination\<close>.\<close>

definition success :: "'a ProducerConsumer \<Rightarrow> bool" where
  "success s = (heap s ! source s = heap s ! destination s)"


section \<open>Runs\<close>

text \<open>
  A run is an interleaving of the atomic steps of the three threads. A schedule names the
  thread that moves at each step; a schedule that picks a thread which cannot move (not
  started, ended, or waiting inside the queue) is not a run of the program.
\<close>

datatype tid = MainThread | ProducerThread | ConsumerThread

definition step ::
  "('a \<Rightarrow> bool) \<Rightarrow> tid \<Rightarrow> 'a ProducerConsumer \<Rightarrow> ('a event \<times> 'a ProducerConsumer) option" where
  "step writable t s =
     (case t of MainThread \<Rightarrow> start s | ProducerThread \<Rightarrow> producer writable s
      | ConsumerThread \<Rightarrow> consumer writable s)"

fun exec ::
  "('a \<Rightarrow> bool) \<Rightarrow> tid list \<Rightarrow> 'a ProducerConsumer
   \<Rightarrow> ('a event list \<times> 'a ProducerConsumer) option" where
  "exec writable [] s = Some ([], s)"
| "exec writable (t # ts) s =
     (case step writable t s of
        None \<Rightarrow> None
      | Some (e, s') \<Rightarrow>
          (case exec writable ts s' of
             None \<Rightarrow> None
           | Some (es, s'') \<Rightarrow> Some (e # es, s'')))"

text \<open>The items of the events of each kind, in the order they happened.\<close>

definition put_items :: "'a event list \<Rightarrow> 'a list" where
  "put_items es = concat (map (\<lambda>e. case e of Put x \<Rightarrow> [x] | _ \<Rightarrow> []) es)"

definition get_items :: "'a event list \<Rightarrow> 'a list" where
  "get_items es = concat (map (\<lambda>e. case e of Get x \<Rightarrow> [x] | _ \<Rightarrow> []) es)"

definition append_items :: "'a event list \<Rightarrow> 'a list" where
  "append_items es = concat (map (\<lambda>e. case e of Append x \<Rightarrow> [x] | _ \<Rightarrow> []) es)"

definition acknowledged :: "'a event list \<Rightarrow> nat" where
  "acknowledged es = length (filter (\<lambda>e. case e of TaskDone \<Rightarrow> True | _ \<Rightarrow> False) es)"

definition consumer_events :: "'a event list \<Rightarrow> 'a event list" where
  "consumer_events es =
     filter (\<lambda>e. case e of Get x \<Rightarrow> True | Append x \<Rightarrow> True | TaskDone \<Rightarrow> True | _ \<Rightarrow> False) es"

text \<open>One iteration of the consumer's loop on item \<open>x\<close>, and the whole loop on a list.\<close>

definition consumer_cycle :: "'a \<Rightarrow> 'a event list" where
  "consumer_cycle x = [Get x, Append x, TaskDone]"

definition consumer_trace :: "'a list \<Rightarrow> 'a event list" where
  "consumer_trace xs = concat (map consumer_cycle xs)"

text \<open>A unit is blocked when it is inside a queue method that has not returned.\<close>

definition producer_blocked :: "'a ProducerConsumer \<Rightarrow> bool" where
  "producer_blocked s =
     (case producer_thread s of
        PPut i item \<Rightarrow> (case Queue_put (shared_queue s) item of None \<Rightarrow> True | Some q \<Rightarrow> False)
      | _ \<Rightarrow> False)"

definition consumer_blocked :: "'a ProducerConsumer \<Rightarrow> bool" where
  "consumer_blocked s =
     (case consumer_thread s of
        CNext i n \<Rightarrow> i < n \<and> (case Queue_get (shared_queue s) of None \<Rightarrow> True | Some r \<Rightarrow> False)
      | _ \<Rightarrow> False)"

text \<open>
  The caller changing its own list object, at reference \<open>a\<close>, to any other content.
\<close>

definition caller_mutates :: "ref \<Rightarrow> 'a list \<Rightarrow> 'a ProducerConsumer \<Rightarrow> 'a ProducerConsumer" where
  "caller_mutates a ys s = s\<lparr>heap := (heap s)[a := ys]\<rparr>"


section \<open>What holds in every reachable state\<close>

text \<open>
  The control points tell how far each thread has come: how many items the producer has
  put, and how many the consumer has taken, appended and acknowledged. \<open>n\<close> is the length of
  the source. Every item that has been put was written by the log of line 36 first.
\<close>

definition puts_done :: "nat \<Rightarrow> 'a producer_pc \<Rightarrow> nat" where
  "puts_done n pc =
     (case pc of PNotStarted \<Rightarrow> 0 | PNext i \<Rightarrow> i | PPut i x \<Rightarrow> i - 1 | PFinished \<Rightarrow> n
      | PRaised k e \<Rightarrow> k)"

definition gets_done :: "nat \<Rightarrow> 'a consumer_pc \<Rightarrow> nat" where
  "gets_done n pc =
     (case pc of CNext i m \<Rightarrow> i | CAppend i m x \<Rightarrow> i + 1 | CTaskDone i m x \<Rightarrow> i + 1
      | CFinished \<Rightarrow> n | _ \<Rightarrow> 0)"

definition appends_done :: "nat \<Rightarrow> 'a consumer_pc \<Rightarrow> nat" where
  "appends_done n pc =
     (case pc of CNext i m \<Rightarrow> i | CAppend i m x \<Rightarrow> i | CTaskDone i m x \<Rightarrow> i + 1
      | CFinished \<Rightarrow> n | _ \<Rightarrow> 0)"

definition acks_done :: "nat \<Rightarrow> 'a consumer_pc \<Rightarrow> nat" where
  "acks_done n pc =
     (case pc of CNext i m \<Rightarrow> i | CAppend i m x \<Rightarrow> i | CTaskDone i m x \<Rightarrow> i
      | CFinished \<Rightarrow> n | _ \<Rightarrow> 0)"

definition producer_ok :: "('a \<Rightarrow> bool) \<Rightarrow> 'a list \<Rightarrow> 'a producer_pc \<Rightarrow> bool" where
  "producer_ok writable src pc =
     (case pc of PNext i \<Rightarrow> i \<le> length src
      | PPut i x \<Rightarrow> 0 < i \<and> i \<le> length src \<and> x = src ! (i - 1) \<and> writable x
      | PRaised k e \<Rightarrow> k < length src \<and> \<not> writable (src ! k)
      | _ \<Rightarrow> True)"

definition consumer_ok :: "'a list \<Rightarrow> 'a consumer_pc \<Rightarrow> bool" where
  "consumer_ok src pc =
     (case pc of CNext i m \<Rightarrow> m = length src \<and> i \<le> m
      | CAppend i m x \<Rightarrow> m = length src \<and> i < m \<and> x = src ! i
      | CTaskDone i m x \<Rightarrow> m = length src \<and> i < m \<and> x = src ! i
      | CRaised e \<Rightarrow> False
      | _ \<Rightarrow> True)"

definition main_ok :: "'a ProducerConsumer \<Rightarrow> bool" where
  "main_ok s =
     (case start_pc s of
        StartProducer \<Rightarrow> producer_thread s = PNotStarted \<and> consumer_thread s = CNotStarted
      | StartConsumer \<Rightarrow> producer_thread s \<noteq> PNotStarted \<and> consumer_thread s = CNotStarted
      | JoinProducer \<Rightarrow> producer_thread s \<noteq> PNotStarted \<and> consumer_thread s \<noteq> CNotStarted
      | JoinConsumer \<Rightarrow> producer_ended s \<and> consumer_thread s \<noteq> CNotStarted
      | JoinQueue \<Rightarrow> producer_thread s = PFinished \<and> consumer_thread s = CFinished
      | Complete \<Rightarrow> producer_thread s = PFinished \<and> consumer_thread s = CFinished)"

definition state_inv ::
  "('a \<Rightarrow> bool) \<Rightarrow> 'a list \<Rightarrow> nat \<Rightarrow> int \<Rightarrow> 'a ProducerConsumer \<Rightarrow> bool" where
  "state_inv writable src L cap s =
     (length (heap s) = L + 2 \<and> source s = L \<and> destination s = L + 1 \<and> heap s ! L = src \<and>
      maxsize (shared_queue s) = cap \<and>
      producer_ok writable src (producer_thread s) \<and> consumer_ok src (consumer_thread s) \<and>
      main_ok s \<and>
      gets_done (length src) (consumer_thread s) \<le> puts_done (length src) (producer_thread s) \<and>
      queue (shared_queue s) =
        drop (gets_done (length src) (consumer_thread s))
          (take (puts_done (length src) (producer_thread s)) src) \<and>
      heap s ! (L + 1) = take (appends_done (length src) (consumer_thread s)) src \<and>
      unfinished_tasks (shared_queue s) =
        int (puts_done (length src) (producer_thread s))
        - int (acks_done (length src) (consumer_thread s)) \<and>
      (0 < cap \<longrightarrow> int (length (queue (shared_queue s))) \<le> cap) \<and>
      (\<forall>j < puts_done (length src) (producer_thread s). writable (src ! j)))"

definition consumer_partial :: "'a list \<Rightarrow> 'a consumer_pc \<Rightarrow> 'a event list" where
  "consumer_partial src pc =
     (case pc of CAppend i m x \<Rightarrow> [Get x]
      | CTaskDone i m x \<Rightarrow> [Get (src ! i), Append (src ! i)]
      | _ \<Rightarrow> [])"

definition trace_inv :: "'a list \<Rightarrow> 'a event list \<Rightarrow> 'a ProducerConsumer \<Rightarrow> bool" where
  "trace_inv src es s =
     (put_items es = take (puts_done (length src) (producer_thread s)) src \<and>
      get_items es = take (gets_done (length src) (consumer_thread s)) src \<and>
      append_items es = take (appends_done (length src) (consumer_thread s)) src \<and>
      acknowledged es = acks_done (length src) (consumer_thread s) \<and>
      consumer_events es =
        consumer_trace (take (acks_done (length src) (consumer_thread s)) src)
        @ consumer_partial src (consumer_thread s))"

text \<open>
  The number of steps each thread still has to take, from its control point; their sum
  goes down with every step of a run, by one unless the step raises.
\<close>

definition producer_remaining :: "nat \<Rightarrow> 'a producer_pc \<Rightarrow> nat" where
  "producer_remaining n pc =
     (case pc of PNotStarted \<Rightarrow> 2 * n + 1 | PNext i \<Rightarrow> 2 * (n - i) + 1
      | PPut i x \<Rightarrow> 2 * (n - i) + 2 | PFinished \<Rightarrow> 0 | PRaised k e \<Rightarrow> 0)"

definition consumer_remaining :: "nat \<Rightarrow> 'a consumer_pc \<Rightarrow> nat" where
  "consumer_remaining n pc =
     (case pc of CNotStarted \<Rightarrow> 3 * n + 2 | CBegin \<Rightarrow> 3 * n + 2
      | CNext i m \<Rightarrow> 3 * (n - i) + 1 | CAppend i m x \<Rightarrow> 3 * (n - i)
      | CTaskDone i m x \<Rightarrow> 3 * (n - i) - 1 | CFinished \<Rightarrow> 0 | CRaised e \<Rightarrow> 0)"

definition start_remaining :: "start_pc \<Rightarrow> nat" where
  "start_remaining pc =
     (case pc of StartProducer \<Rightarrow> 5 | StartConsumer \<Rightarrow> 4 | JoinProducer \<Rightarrow> 3
      | JoinConsumer \<Rightarrow> 2 | JoinQueue \<Rightarrow> 1 | Complete \<Rightarrow> 0)"

definition remaining :: "'a ProducerConsumer \<Rightarrow> nat" where
  "remaining s =
     start_remaining (start_pc s)
     + producer_remaining (length (heap s ! source s)) (producer_thread s)
     + consumer_remaining (length (heap s ! source s)) (consumer_thread s)"

text \<open>A schedule of a whole run on a two-item source with a queue of capacity one.\<close>

definition demo_schedule :: "tid list" where
  "demo_schedule =
     [MainThread, MainThread, ProducerThread, ProducerThread, ConsumerThread, ConsumerThread,
      ConsumerThread, ConsumerThread, ProducerThread, ProducerThread, ProducerThread,
      ConsumerThread, ConsumerThread, ConsumerThread, ConsumerThread,
      MainThread, MainThread, MainThread]"

text \<open>Further runs on concrete inputs, with the events and the state each ends in.\<close>

definition demo_events :: "int event list" where
  "demo_events =
     [Silent, Silent, Silent, Put 1, Silent, Get 1, Append 1, TaskDone, Silent, Put 2,
      Silent, Get 2, Append 2, TaskDone, Silent, Silent, Silent, Silent]"

definition demo_final :: "int ProducerConsumer" where
  "demo_final =
     \<lparr>heap = [[1, 2], [1, 2], [1, 2]], source = 1, destination = 2,
      shared_queue = \<lparr>maxsize = 1, queue = [], unfinished_tasks = 0\<rparr>,
      producer_thread = PFinished, consumer_thread = CFinished, start_pc = Complete\<rparr>"

definition alt_schedule :: "tid list" where
  "alt_schedule =
     [MainThread, MainThread, ConsumerThread, ProducerThread, ProducerThread, ProducerThread,
      ConsumerThread, ProducerThread, ProducerThread, ConsumerThread, ConsumerThread,
      ConsumerThread, ConsumerThread, ConsumerThread, ConsumerThread,
      MainThread, MainThread, MainThread]"

definition alt_events :: "int event list" where
  "alt_events =
     [Silent, Silent, Silent, Silent, Put 1, Silent, Get 1, Put 2, Silent, Append 1,
      TaskDone, Get 2, Append 2, TaskDone, Silent, Silent, Silent, Silent]"

definition full_schedule :: "tid list" where
  "full_schedule = [MainThread, MainThread, ProducerThread, ProducerThread, ProducerThread]"

definition full_events :: "int event list" where
  "full_events = [Silent, Silent, Silent, Put 1, Silent]"

definition full_state :: "int ProducerConsumer" where
  "full_state =
     \<lparr>heap = [[1, 2], [1, 2], []], source = 1, destination = 2,
      shared_queue = \<lparr>maxsize = 1, queue = [1], unfinished_tasks = 1\<rparr>,
      producer_thread = PPut 2 2, consumer_thread = CBegin, start_pc = JoinProducer\<rparr>"

definition empty_schedule :: "tid list" where
  "empty_schedule =
     [MainThread, MainThread, ProducerThread, ConsumerThread, ConsumerThread,
      MainThread, MainThread, MainThread]"

definition empty_final :: "int ProducerConsumer" where
  "empty_final =
     \<lparr>heap = [[], [], []], source = 1, destination = 2,
      shared_queue = \<lparr>maxsize = 2, queue = [], unfinished_tasks = 0\<rparr>,
      producer_thread = PFinished, consumer_thread = CFinished, start_pc = Complete\<rparr>"

definition unbounded_schedule :: "tid list" where
  "unbounded_schedule =
     [MainThread, MainThread, ProducerThread, ProducerThread, ProducerThread, ProducerThread]"

definition unbounded_state :: "int ProducerConsumer" where
  "unbounded_state =
     \<lparr>heap = [[1, 2], [1, 2], []], source = 1, destination = 2,
      shared_queue = \<lparr>maxsize = 0, queue = [1, 2], unfinished_tasks = 2\<rparr>,
      producer_thread = PNext 2, consumer_thread = CBegin, start_pc = JoinProducer\<rparr>"






section \<open>The steps, case by case\<close>

lemma drop_eq_ConsD:
  assumes "drop n xs = y # ys"
  shows "n < length xs \<and> y = xs ! n \<and> ys = drop (Suc n) xs"
proof -
  have n: "n < length xs" using assms by (cases "n < length xs") auto
  then have "drop n xs = xs ! n # drop (Suc n) xs" by (simp add: Cons_nth_drop_Suc)
  with assms n show ?thesis by simp
qed

lemma init_state_inv:
  "a < length h \<Longrightarrow> state_inv writable (h ! a) (length h) cap (ProducerConsumer_init h a cap)"
  by (simp add: state_inv_def ProducerConsumer_init_def new_list_def Queue_init_def
      producer_ok_def consumer_ok_def main_ok_def puts_done_def gets_done_def appends_done_def
      acks_done_def nth_append)

lemma producer_ended_iff:
  "producer_ended s \<longleftrightarrow>
     producer_thread s = PFinished \<or> (\<exists>k e. producer_thread s = PRaised k e)"
  by (cases "producer_thread s") (simp_all add: producer_ended_def)

lemma consumer_ended_iff:
  "consumer_ended s \<longleftrightarrow> consumer_thread s = CFinished \<or> (\<exists>e. consumer_thread s = CRaised e)"
  by (cases "consumer_thread s") (simp_all add: consumer_ended_def)

lemma producer_ended_frame [simp]:
  "producer_ended (s\<lparr>shared_queue := q\<rparr>) = producer_ended s"
  "producer_ended (s\<lparr>heap := h\<rparr>) = producer_ended s"
  "producer_ended (s\<lparr>consumer_thread := c\<rparr>) = producer_ended s"
  "producer_ended (s\<lparr>start_pc := m\<rparr>) = producer_ended s"
  by (simp_all add: producer_ended_def)

lemma startE:
  assumes "start s = Some (e, s')"
  obtains
    (start_producer) "start_pc s = StartProducer" "e = Silent"
      "s' = s\<lparr>producer_thread := PNext 0, start_pc := StartConsumer\<rparr>"
  | (start_consumer) "start_pc s = StartConsumer" "e = Silent"
      "s' = s\<lparr>consumer_thread := CBegin, start_pc := JoinProducer\<rparr>"
  | (join_producer) "start_pc s = JoinProducer" "producer_ended s" "e = Silent"
      "s' = s\<lparr>start_pc := JoinConsumer\<rparr>"
  | (join_consumer) "start_pc s = JoinConsumer" "consumer_ended s" "e = Silent"
      "s' = s\<lparr>start_pc := JoinQueue\<rparr>"
  | (join_queue) "start_pc s = JoinQueue" "unfinished_tasks (shared_queue s) = 0" "e = Silent"
      "s' = s\<lparr>start_pc := Complete\<rparr>"
  using assms
  by (cases "start_pc s")
    (auto simp: start_def Queue_join_def split: if_splits)

lemma producerE:
  assumes "producer writable s = Some (e, s')"
  obtains
    (fetch) i where "producer_thread s = PNext i" "i < length (heap s ! source s)"
      "writable (heap s ! source s ! i)" "e = Silent"
      "s' = s\<lparr>producer_thread := PPut (i + 1) (heap s ! source s ! i)\<rparr>"
  | (fetch_raise) i where "producer_thread s = PNext i" "i < length (heap s ! source s)"
      "\<not> writable (heap s ! source s ! i)" "e = Silent"
      "s' = s\<lparr>producer_thread := PRaised i LogError\<rparr>"
  | (finish) i where "producer_thread s = PNext i" "\<not> i < length (heap s ! source s)"
      "e = Silent" "s' = s\<lparr>producer_thread := PFinished\<rparr>"
  | (put) i item where "producer_thread s = PPut i item"
      "\<not> (0 < maxsize (shared_queue s) \<and>
          maxsize (shared_queue s) \<le> int (length (queue (shared_queue s))))"
      "writable item" "e = Put item"
      "s' = s\<lparr>shared_queue := (shared_queue s)\<lparr>queue := queue (shared_queue s) @ [item],
               unfinished_tasks := unfinished_tasks (shared_queue s) + 1\<rparr>,
             producer_thread := PNext i\<rparr>"
  | (put_raise) i item where "producer_thread s = PPut i item" "\<not> writable item"
      "e = Put item"
      "s' = s\<lparr>shared_queue := (shared_queue s)\<lparr>queue := queue (shared_queue s) @ [item],
               unfinished_tasks := unfinished_tasks (shared_queue s) + 1\<rparr>,
             producer_thread := PRaised i LogError\<rparr>"
  using assms
  by (cases "producer_thread s")
    (auto simp: producer_def log_def Let_def Queue_put_def qsize_def split: if_splits)

lemma consumerE:
  assumes "consumer writable s = Some (e, s')"
  obtains
    (enter) "consumer_thread s = CBegin" "e = Silent"
      "s' = s\<lparr>consumer_thread := CNext 0 (length (heap s ! source s))\<rparr>"
  | (get) i n item rest where "consumer_thread s = CNext i n" "i < n"
      "queue (shared_queue s) = item # rest" "writable item" "e = Get item"
      "s' = s\<lparr>shared_queue := (shared_queue s)\<lparr>queue := rest\<rparr>,
             consumer_thread := CAppend i n item\<rparr>"
  | (get_raise) i n item rest where "consumer_thread s = CNext i n" "i < n"
      "queue (shared_queue s) = item # rest" "\<not> writable item" "e = Get item"
      "s' = s\<lparr>shared_queue := (shared_queue s)\<lparr>queue := rest\<rparr>,
             consumer_thread := CRaised LogError\<rparr>"
  | (finish) i n where "consumer_thread s = CNext i n" "\<not> i < n" "e = Silent"
      "s' = s\<lparr>consumer_thread := CFinished\<rparr>"
  | (append) i n item where "consumer_thread s = CAppend i n item" "e = Append item"
      "s' = s\<lparr>heap := (heap s)[destination s := heap s ! destination s @ [item]],
             consumer_thread := CTaskDone i n item\<rparr>"
  | (task_done) i n item where "consumer_thread s = CTaskDone i n item"
      "\<not> unfinished_tasks (shared_queue s) - 1 < 0" "writable item" "e = TaskDone"
      "s' = s\<lparr>shared_queue :=
               (shared_queue s)\<lparr>unfinished_tasks := unfinished_tasks (shared_queue s) - 1\<rparr>,
             consumer_thread := CNext (i + 1) n\<rparr>"
  | (ack_raise) i n item where "consumer_thread s = CTaskDone i n item" "\<not> writable item"
      "e = TaskDone"
      "s' = s\<lparr>shared_queue :=
               (shared_queue s)\<lparr>unfinished_tasks := unfinished_tasks (shared_queue s) - 1\<rparr>,
             consumer_thread := CRaised LogError\<rparr>"
  | (fault) i n item where "consumer_thread s = CTaskDone i n item"
      "unfinished_tasks (shared_queue s) - 1 < 0" "e = Silent"
      "s' = s\<lparr>consumer_thread := CRaised ValueError\<rparr>"
  using assms
  by (cases "consumer_thread s")
    (auto simp: consumer_def log_def Let_def Queue_get_def Queue_task_done_def
      split: if_splits list.splits)

lemmas pc_defs = producer_ok_def consumer_ok_def puts_done_def gets_done_def
  appends_done_def acks_done_def

lemma state_invD:
  assumes "state_inv writable src L cap s"
  shows "length (heap s) = L + 2" and "source s = L" and "destination s = L + 1"
    and "heap s ! L = src" and "maxsize (shared_queue s) = cap"
    and "producer_ok writable src (producer_thread s)"
    and "consumer_ok src (consumer_thread s)"
    and "main_ok s"
    and "gets_done (length src) (consumer_thread s) \<le> puts_done (length src) (producer_thread s)"
    and "queue (shared_queue s) =
          drop (gets_done (length src) (consumer_thread s))
            (take (puts_done (length src) (producer_thread s)) src)"
    and "heap s ! (L + 1) = take (appends_done (length src) (consumer_thread s)) src"
    and "unfinished_tasks (shared_queue s) =
          int (puts_done (length src) (producer_thread s))
          - int (acks_done (length src) (consumer_thread s))"
    and "0 < cap \<longrightarrow> int (length (queue (shared_queue s))) \<le> cap"
    and "\<forall>j < puts_done (length src) (producer_thread s). writable (src ! j)"
  using assms unfolding state_inv_def by blast+

text \<open>An exception in the producer or the consumer is excluded in four of the six places.\<close>

lemma put_raise_impossible:
  assumes "state_inv writable src L cap s" and "producer_thread s = PPut i item"
    and "\<not> writable item"
  shows False
  using state_invD(6) [OF assms(1)] assms(2,3) by (simp add: producer_ok_def)

lemma get_raise_impossible:
  assumes "state_inv writable src L cap s" and "consumer_thread s = CNext i n"
    and "queue (shared_queue s) = item # rest" and "\<not> writable item"
  shows False
proof -
  note inv = state_invD [OF assms(1)]
  let ?p = "puts_done (length src) (producer_thread s)"
  from inv(10) assms(3) have q: "drop i (take ?p src) = item # rest"
    by (simp add: assms(2) gets_done_def)
  from drop_eq_ConsD [OF q] have "i < ?p" "item = src ! i" by simp_all
  with inv(14) assms(4) show False by simp
qed

lemma ack_raise_impossible:
  assumes "state_inv writable src L cap s" and "consumer_thread s = CTaskDone i n item"
    and "\<not> writable item"
  shows False
proof -
  note inv = state_invD [OF assms(1)]
  from inv(7) have "item = src ! i" by (simp add: assms(2) consumer_ok_def)
  moreover from inv(9) have "i < puts_done (length src) (producer_thread s)"
    by (simp add: assms(2) gets_done_def)
  ultimately show False using inv(14) assms(3) by simp
qed

lemma fault_impossible:
  assumes "state_inv writable src L cap s" and "consumer_thread s = CTaskDone i n item"
    and "unfinished_tasks (shared_queue s) - 1 < 0"
  shows False
  using state_invD(9,12) [OF assms(1)] assms(3) by (simp add: assms(2) pc_defs)

lemma main_ok_frame [simp]:
  "main_ok (s\<lparr>shared_queue := q\<rparr>) = main_ok s"
  "main_ok (s\<lparr>heap := h\<rparr>) = main_ok s"
  by (cases "start_pc s"; simp add: main_ok_def)+

lemma main_ok_producer:
  "main_ok s \<Longrightarrow> producer_thread s \<noteq> PNotStarted \<Longrightarrow> \<not> producer_ended s \<Longrightarrow>
   pc \<noteq> PNotStarted \<Longrightarrow> main_ok (s\<lparr>producer_thread := pc\<rparr>)"
  by (cases "start_pc s") (simp_all add: main_ok_def producer_ended_def)

lemma main_ok_consumer:
  "main_ok s \<Longrightarrow> consumer_thread s \<noteq> CNotStarted \<Longrightarrow> consumer_thread s \<noteq> CFinished \<Longrightarrow>
   pc \<noteq> CNotStarted \<Longrightarrow> main_ok (s\<lparr>consumer_thread := pc\<rparr>)"
  by (cases "start_pc s") (simp_all add: main_ok_def)

text \<open>When both threads have ended and the consumer finished its loop, so did the producer.\<close>

lemma ended_producer_finished:
  assumes "state_inv writable src L cap s" and "producer_ended s"
    and "consumer_thread s = CFinished"
  shows "producer_thread s = PFinished"
proof (cases "producer_thread s")
  case (PRaised k e)
  with state_invD(6,9) [OF assms(1)] assms(3) show ?thesis
    by (simp add: pc_defs)
qed (use assms(2) in \<open>simp_all add: producer_ended_def\<close>)

lemma start_state_inv:
  assumes "state_inv writable src L cap s" and "start s = Some (e, s')"
  shows "state_inv writable src L cap s'"
  using assms(2)
proof (cases rule: startE)
  case start_producer
  note inv = state_invD [OF assms(1)]
  from inv(8) start_producer(1)
  have pc: "producer_thread s = PNotStarted" "consumer_thread s = CNotStarted"
    by (simp_all add: main_ok_def)
  show ?thesis
    using inv(1-5,10-13) unfolding start_producer(3) state_inv_def
    by (simp add: pc pc_defs main_ok_def)
next
  case start_consumer
  note inv = state_invD [OF assms(1)]
  from inv(8) start_consumer(1)
  have pc: "producer_thread s \<noteq> PNotStarted" "consumer_thread s = CNotStarted"
    by (simp_all add: main_ok_def)
  show ?thesis
    using inv(1-6,9-14) pc(1) unfolding start_consumer(3) state_inv_def
    by (simp add: pc(2) pc_defs main_ok_def)
next
  case join_producer
  note inv = state_invD [OF assms(1)]
  from inv(8) join_producer(1)
  have pc: "consumer_thread s \<noteq> CNotStarted" by (simp add: main_ok_def)
  show ?thesis
    using inv(1-7,9-14) pc join_producer(2) unfolding join_producer(4) state_inv_def
    by (simp add: main_ok_def)
next
  case join_consumer
  note inv = state_invD [OF assms(1)]
  from inv(7) have "\<forall>e. consumer_thread s \<noteq> CRaised e"
    by (auto simp: consumer_ok_def)
  with join_consumer(2) have c: "consumer_thread s = CFinished"
    by (simp add: consumer_ended_iff)
  from inv(8) join_consumer(1) have "producer_ended s"
    by (simp add: main_ok_def)
  from ended_producer_finished [OF assms(1) this c] have p: "producer_thread s = PFinished" .
  show ?thesis
    using inv(1-7,9-14) unfolding join_consumer(4) state_inv_def
    by (simp add: c p main_ok_def)
next
  case join_queue
  note inv = state_invD [OF assms(1)]
  from inv(8) join_queue(1)
  have pc: "producer_thread s = PFinished" "consumer_thread s = CFinished"
    by (simp_all add: main_ok_def)
  show ?thesis
    using inv(1-7,9-14) unfolding join_queue(4) state_inv_def
    by (simp add: pc main_ok_def)
qed

lemma producer_state_inv:
  assumes "state_inv writable src L cap s" and "producer writable s = Some (e, s')"
  shows "state_inv writable src L cap s'"
  using assms(2)
proof (cases rule: producerE)
  case (fetch i)
  note inv = state_invD [OF assms(1)]
  have m: "main_ok (s\<lparr>producer_thread := PPut (i + 1) (heap s ! source s ! i)\<rparr>)"
    using inv(8) by (rule main_ok_producer) (simp_all add: fetch(1) producer_ended_def)
  from fetch(2,3) inv(2,4) have i: "i < length src" "writable (src ! i)" by simp_all
  from inv(14) have w: "\<forall>j<i. writable (src ! j)" by (simp add: fetch(1) puts_done_def)
  show ?thesis
    using inv(1-5,7,9-13) m i w unfolding fetch(5) state_inv_def
    by (simp add: fetch(1) pc_defs)
next
  case (fetch_raise i)
  note inv = state_invD [OF assms(1)]
  have m: "main_ok (s\<lparr>producer_thread := PRaised i LogError\<rparr>)"
    using inv(8) by (rule main_ok_producer) (simp_all add: fetch_raise(1) producer_ended_def)
  from fetch_raise(2,3) inv(2,4) have i: "i < length src" "\<not> writable (src ! i)" by simp_all
  from inv(14) have w: "\<forall>j<i. writable (src ! j)" by (simp add: fetch_raise(1) puts_done_def)
  show ?thesis
    using inv(1-5,7,9-13) m i w unfolding fetch_raise(5) state_inv_def
    by (simp add: fetch_raise(1) pc_defs)
next
  case (finish i)
  note inv = state_invD [OF assms(1)]
  from inv(6) finish(1,2) inv(2,4) have i: "i = length src" by (simp add: pc_defs)
  have m: "main_ok (s\<lparr>producer_thread := PFinished\<rparr>)"
    using inv(8) by (rule main_ok_producer) (simp_all add: finish(1) producer_ended_def)
  from inv(14) have w: "\<forall>j<length src. writable (src ! j)"
    by (simp add: finish(1) i puts_done_def)
  show ?thesis
    using inv(1-5,7,9-13) m w unfolding finish(4) state_inv_def
    by (simp add: finish(1) i pc_defs)
next
  case (put i item)
  note inv = state_invD [OF assms(1)]
  from inv(6) have i: "0 < i" "i \<le> length src" "item = src ! (i - 1)"
    by (simp_all add: put(1) pc_defs)
  then have tk: "take i src = take (i - 1) src @ [item]"
    using take_Suc_conv_app_nth [of "i - 1" src] by simp
  have m: "main_ok (s\<lparr>shared_queue := q, producer_thread := PNext i\<rparr>)" for q
    using main_ok_producer [of "s\<lparr>shared_queue := q\<rparr>" "PNext i"] inv(8)
    by (simp add: put(1) producer_ended_def)
  from inv(9) have g: "gets_done (length src) (consumer_thread s) \<le> i - 1"
    by (simp add: put(1) pc_defs)
  from inv(10) have q: "queue (shared_queue s) =
      drop (gets_done (length src) (consumer_thread s)) (take (i - 1) src)"
    by (simp add: put(1) pc_defs)
  from inv(12) have u: "unfinished_tasks (shared_queue s) =
      int (i - 1) - int (acks_done (length src) (consumer_thread s))"
    by (simp add: put(1) pc_defs)
  from put(2) inv(5) have b: "0 < cap \<longrightarrow> int (length (queue (shared_queue s))) < cap"
    by auto
  have b': "0 < cap \<longrightarrow> int (length (queue (shared_queue s) @ [item])) \<le> cap"
    using b by auto
  have q': "queue (shared_queue s) @ [item] =
      drop (gets_done (length src) (consumer_thread s)) (take i src)"
    using g i(1,2) by (simp add: q tk)
  have u': "unfinished_tasks (shared_queue s) + 1 =
      int i - int (acks_done (length src) (consumer_thread s))"
    using i(1) by (simp add: u)
  have g': "gets_done (length src) (consumer_thread s) \<le> i" using g by simp
  have w: "\<forall>j<i. writable (src ! j)"
  proof (intro allI impI)
    fix j assume "j < i"
    then consider "j < i - 1" | "j = i - 1" by linarith
    then show "writable (src ! j)"
    proof cases
      case 1
      with inv(14) show ?thesis by (simp add: put(1) puts_done_def)
    next
      case 2
      with put(3) i(3) show ?thesis by simp
    qed
  qed
  show ?thesis
    using inv(1-5,7,11) m i(2) b' q' u' g' w unfolding put(5) state_inv_def
    by (simp add: pc_defs)
next
  case (put_raise i item)
  from put_raise_impossible [OF assms(1) put_raise(1,2)] show ?thesis ..
qed

lemma consumer_state_inv:
  assumes "state_inv writable src L cap s" and "consumer writable s = Some (e, s')"
  shows "state_inv writable src L cap s'"
  using assms(2)
proof (cases rule: consumerE)
  case enter
  note inv = state_invD [OF assms(1)]
  have m: "main_ok (s\<lparr>consumer_thread := CNext 0 (length (heap s ! source s))\<rparr>)"
    using inv(8) by (rule main_ok_consumer) (simp_all add: enter(1))
  from inv(10,11,12) have
    "queue (shared_queue s) = take (puts_done (length src) (producer_thread s)) src"
    "heap s ! (L + 1) = []"
    "unfinished_tasks (shared_queue s) = int (puts_done (length src) (producer_thread s))"
    by (simp_all add: enter(1) pc_defs)
  then show ?thesis
    using inv(1-6,13,14) m unfolding enter(3) state_inv_def
    by (simp add: consumer_ok_def gets_done_def appends_done_def acks_done_def)
next
  case (get i n item rest)
  note inv = state_invD [OF assms(1)]
  let ?p = "puts_done (length src) (producer_thread s)"
  from inv(7) have n: "n = length src" "i \<le> n" by (simp_all add: get(1) consumer_ok_def)
  from inv(10) get(3) have q: "drop i (take ?p src) = item # rest"
    by (simp add: get(1) gets_done_def)
  note d = drop_eq_ConsD [OF q]
  from d get(2) n have ip: "i < ?p" and item: "item = src ! i"
    and rest: "rest = drop (Suc i) (take ?p src)" by simp_all
  have m: "main_ok (s\<lparr>shared_queue := q, consumer_thread := CAppend i n item\<rparr>)" for q
    using main_ok_consumer [of "s\<lparr>shared_queue := q\<rparr>" "CAppend i n item"] inv(8)
    by (simp add: get(1))
  from inv(11,12) have
    "heap s ! (L + 1) = take i src"
    "unfinished_tasks (shared_queue s) = int ?p - int i"
    by (simp_all add: get(1) pc_defs)
  moreover from inv(13) get(3) have "0 < cap \<longrightarrow> int (length rest) \<le> cap" by auto
  ultimately show ?thesis
    using inv(1-6,14) m ip item rest n get(2) unfolding get(6) state_inv_def
    by (simp add: consumer_ok_def gets_done_def appends_done_def acks_done_def)
next
  case (get_raise i n item rest)
  from get_raise_impossible [OF assms(1) get_raise(1,3,4)] show ?thesis ..
next
  case (finish i n)
  note inv = state_invD [OF assms(1)]
  from inv(7) finish(2) have i: "i = length src" "n = length src"
    by (simp_all add: finish(1) consumer_ok_def)
  have m: "main_ok (s\<lparr>consumer_thread := CFinished\<rparr>)"
    using inv(8) by (rule main_ok_consumer) (simp_all add: finish(1))
  from inv(9,10,11,12) have
    "length src \<le> puts_done (length src) (producer_thread s)"
    "queue (shared_queue s) = drop (length src) (take (puts_done (length src) (producer_thread s)) src)"
    "heap s ! (L + 1) = take (length src) src"
    "unfinished_tasks (shared_queue s) = int (puts_done (length src) (producer_thread s)) - int (length src)"
    by (simp_all add: finish(1) i pc_defs)
  then show ?thesis
    using inv(1-6,13,14) m unfolding finish(4) state_inv_def
    by (simp add: consumer_ok_def gets_done_def appends_done_def acks_done_def)
next
  case (append i n item)
  note inv = state_invD [OF assms(1)]
  from inv(7) have i: "n = length src" "i < n" "item = src ! i"
    by (simp_all add: append(1) consumer_ok_def)
  then have tk: "take (Suc i) src = take i src @ [item]"
    by (simp add: take_Suc_conv_app_nth)
  have m: "main_ok (s\<lparr>heap := h, consumer_thread := CTaskDone i n item\<rparr>)" for h
    using main_ok_consumer [of "s\<lparr>heap := h\<rparr>" "CTaskDone i n item"] inv(8)
    by (simp add: append(1))
  from inv(9,10,11,12) have
    "Suc i \<le> puts_done (length src) (producer_thread s)"
    "queue (shared_queue s) = drop (Suc i) (take (puts_done (length src) (producer_thread s)) src)"
    "heap s ! Suc L = take i src"
    "unfinished_tasks (shared_queue s) = int (puts_done (length src) (producer_thread s)) - int i"
    by (simp_all add: append(1) pc_defs)
  then show ?thesis
    using inv(1-6,13,14) m i tk unfolding append(3) state_inv_def
    by (simp add: consumer_ok_def gets_done_def appends_done_def acks_done_def)
next
  case (task_done i n item)
  note inv = state_invD [OF assms(1)]
  from inv(7) have i: "n = length src" "i < n"
    by (simp_all add: task_done(1) consumer_ok_def)
  have m: "main_ok (s\<lparr>shared_queue := q, consumer_thread := CNext (i + 1) n\<rparr>)" for q
    using main_ok_consumer [of "s\<lparr>shared_queue := q\<rparr>" "CNext (i + 1) n"] inv(8)
    by (simp add: task_done(1))
  from inv(9,10,11,12) have
    "Suc i \<le> puts_done (length src) (producer_thread s)"
    "queue (shared_queue s) = drop (Suc i) (take (puts_done (length src) (producer_thread s)) src)"
    "heap s ! Suc L = take (Suc i) src"
    "unfinished_tasks (shared_queue s) = int (puts_done (length src) (producer_thread s)) - int i"
    by (simp_all add: task_done(1) pc_defs)
  then show ?thesis
    using inv(1-6,13,14) m i unfolding task_done(5) state_inv_def
    by (simp add: consumer_ok_def gets_done_def appends_done_def acks_done_def)
next
  case (ack_raise i n item)
  from ack_raise_impossible [OF assms(1) ack_raise(1,2)] show ?thesis ..
next
  case (fault i n item)
  from fault_impossible [OF assms(1) fault(1,2)] show ?thesis ..
qed

lemma step_state_inv:
  assumes "state_inv writable src L cap s" and "step writable t s = Some (e, s')"
  shows "state_inv writable src L cap s'"
  using assms
  by (cases t) (auto simp: step_def intro: start_state_inv producer_state_inv consumer_state_inv)

lemma trace_invD:
  assumes "trace_inv src es s"
  shows "put_items es = take (puts_done (length src) (producer_thread s)) src"
    and "get_items es = take (gets_done (length src) (consumer_thread s)) src"
    and "append_items es = take (appends_done (length src) (consumer_thread s)) src"
    and "acknowledged es = acks_done (length src) (consumer_thread s)"
    and "consumer_events es =
        consumer_trace (take (acks_done (length src) (consumer_thread s)) src)
        @ consumer_partial src (consumer_thread s)"
  using assms unfolding trace_inv_def by blast+

lemmas trace_defs = put_items_def get_items_def append_items_def acknowledged_def
  consumer_events_def

lemma trace_snoc_Silent:
  "put_items (es @ [Silent]) = put_items es" "get_items (es @ [Silent]) = get_items es"
  "append_items (es @ [Silent]) = append_items es" "acknowledged (es @ [Silent]) = acknowledged es"
  "consumer_events (es @ [Silent]) = consumer_events es"
  by (simp_all add: trace_defs)

lemma trace_snoc_Put:
  "put_items (es @ [Put x]) = put_items es @ [x]" "get_items (es @ [Put x]) = get_items es"
  "append_items (es @ [Put x]) = append_items es" "acknowledged (es @ [Put x]) = acknowledged es"
  "consumer_events (es @ [Put x]) = consumer_events es"
  by (simp_all add: trace_defs)

lemma trace_snoc_Get:
  "put_items (es @ [Get x]) = put_items es" "get_items (es @ [Get x]) = get_items es @ [x]"
  "append_items (es @ [Get x]) = append_items es" "acknowledged (es @ [Get x]) = acknowledged es"
  "consumer_events (es @ [Get x]) = consumer_events es @ [Get x]"
  by (simp_all add: trace_defs)

lemma trace_snoc_Append:
  "put_items (es @ [Append x]) = put_items es" "get_items (es @ [Append x]) = get_items es"
  "append_items (es @ [Append x]) = append_items es @ [x]"
  "acknowledged (es @ [Append x]) = acknowledged es"
  "consumer_events (es @ [Append x]) = consumer_events es @ [Append x]"
  by (simp_all add: trace_defs)

lemma trace_snoc_TaskDone:
  "put_items (es @ [TaskDone]) = put_items es" "get_items (es @ [TaskDone]) = get_items es"
  "append_items (es @ [TaskDone]) = append_items es"
  "acknowledged (es @ [TaskDone]) = Suc (acknowledged es)"
  "consumer_events (es @ [TaskDone]) = consumer_events es @ [TaskDone]"
  by (simp_all add: trace_defs)

lemma consumer_trace_snoc:
  "consumer_trace (xs @ [x]) = consumer_trace xs @ [Get x, Append x, TaskDone]"
  by (simp add: consumer_trace_def consumer_cycle_def)

lemma start_trace_inv:
  assumes "state_inv writable src L cap s" and "trace_inv src es s" and "start s = Some (e, s')"
  shows "trace_inv src (es @ [e]) s'"
  using assms(3)
proof (cases rule: startE)
  case start_producer
  from state_invD(8) [OF assms(1)] start_producer(1)
  have pc: "producer_thread s = PNotStarted" by (simp add: main_ok_def)
  show ?thesis
    using trace_invD [OF assms(2)] unfolding start_producer(2,3) trace_inv_def
    by (simp add: trace_snoc_Silent pc puts_done_def)
next
  case start_consumer
  from state_invD(8) [OF assms(1)] start_consumer(1)
  have pc: "consumer_thread s = CNotStarted" by (simp add: main_ok_def)
  show ?thesis
    using trace_invD [OF assms(2)] unfolding start_consumer(2,3) trace_inv_def
    by (simp add: trace_snoc_Silent pc gets_done_def appends_done_def acks_done_def
        consumer_partial_def)
next
  case join_producer
  show ?thesis
    using trace_invD [OF assms(2)] unfolding join_producer(3,4) trace_inv_def
    by (simp add: trace_snoc_Silent)
next
  case join_consumer
  show ?thesis
    using trace_invD [OF assms(2)] unfolding join_consumer(3,4) trace_inv_def
    by (simp add: trace_snoc_Silent)
next
  case join_queue
  show ?thesis
    using trace_invD [OF assms(2)] unfolding join_queue(3,4) trace_inv_def
    by (simp add: trace_snoc_Silent)
qed

lemma producer_trace_inv:
  assumes "state_inv writable src L cap s" and "trace_inv src es s"
    and "producer writable s = Some (e, s')"
  shows "trace_inv src (es @ [e]) s'"
  using assms(3)
proof (cases rule: producerE)
  case (fetch i)
  show ?thesis
    using trace_invD [OF assms(2)] unfolding fetch(4,5) trace_inv_def
    by (simp add: trace_snoc_Silent fetch(1) puts_done_def)
next
  case (fetch_raise i)
  show ?thesis
    using trace_invD [OF assms(2)] unfolding fetch_raise(4,5) trace_inv_def
    by (simp add: trace_snoc_Silent fetch_raise(1) puts_done_def)
next
  case (finish i)
  note inv = state_invD [OF assms(1)]
  from inv(6) finish(1,2) inv(2,4) have i: "i = length src" by (simp add: pc_defs)
  show ?thesis
    using trace_invD [OF assms(2)] unfolding finish(3,4) trace_inv_def
    by (simp add: trace_snoc_Silent finish(1) i puts_done_def)
next
  case (put i item)
  note inv = state_invD [OF assms(1)]
  from inv(6) have i: "0 < i" "i \<le> length src" "item = src ! (i - 1)"
    by (simp_all add: put(1) pc_defs)
  then have tk: "take i src = take (i - 1) src @ [item]"
    using take_Suc_conv_app_nth [of "i - 1" src] by simp
  show ?thesis
    using trace_invD [OF assms(2)] unfolding put(4,5) trace_inv_def
    by (simp add: trace_snoc_Put put(1) puts_done_def tk)
next
  case (put_raise i item)
  from put_raise_impossible [OF assms(1) put_raise(1,2)] show ?thesis ..
qed

lemma consumer_trace_inv:
  assumes "state_inv writable src L cap s" and "trace_inv src es s"
    and "consumer writable s = Some (e, s')"
  shows "trace_inv src (es @ [e]) s'"
  using assms(3)
proof (cases rule: consumerE)
  case enter
  show ?thesis
    using trace_invD [OF assms(2)] unfolding enter(2,3) trace_inv_def
    by (simp add: trace_snoc_Silent enter(1) gets_done_def appends_done_def acks_done_def
        consumer_partial_def)
next
  case (get i n item rest)
  note inv = state_invD [OF assms(1)]
  let ?p = "puts_done (length src) (producer_thread s)"
  from inv(7) have n: "n = length src" "i \<le> n" by (simp_all add: get(1) consumer_ok_def)
  from inv(10) get(3) have q: "drop i (take ?p src) = item # rest"
    by (simp add: get(1) gets_done_def)
  note d = drop_eq_ConsD [OF q]
  from d get(2) n have item: "item = src ! i" by simp
  from get(2) n have tk: "take (Suc i) src = take i src @ [src ! i]"
    by (simp add: take_Suc_conv_app_nth)
  show ?thesis
    using trace_invD [OF assms(2)] unfolding get(5,6) trace_inv_def
    by (simp add: trace_snoc_Get get(1) gets_done_def appends_done_def acks_done_def
        consumer_partial_def item tk)
next
  case (get_raise i n item rest)
  from get_raise_impossible [OF assms(1) get_raise(1,3,4)] show ?thesis ..
next
  case (finish i n)
  note inv = state_invD [OF assms(1)]
  from inv(7) finish(2) have i: "i = length src"
    by (simp_all add: finish(1) consumer_ok_def)
  show ?thesis
    using trace_invD [OF assms(2)] unfolding finish(3,4) trace_inv_def
    by (simp add: trace_snoc_Silent finish(1) i gets_done_def appends_done_def acks_done_def
        consumer_partial_def)
next
  case (append i n item)
  note inv = state_invD [OF assms(1)]
  from inv(7) have i: "n = length src" "i < n" "item = src ! i"
    by (simp_all add: append(1) consumer_ok_def)
  then have tk: "take (Suc i) src = take i src @ [src ! i]"
    by (simp add: take_Suc_conv_app_nth)
  show ?thesis
    using trace_invD [OF assms(2)] unfolding append(2,3) trace_inv_def
    by (simp add: trace_snoc_Append append(1) gets_done_def appends_done_def acks_done_def
        consumer_partial_def i(3) tk)
next
  case (task_done i n item)
  note inv = state_invD [OF assms(1)]
  from inv(7) have i: "n = length src" "i < n"
    by (simp_all add: task_done(1) consumer_ok_def)
  then have tk: "take (Suc i) src = take i src @ [src ! i]"
    by (simp add: take_Suc_conv_app_nth)
  show ?thesis
    using trace_invD [OF assms(2)] unfolding task_done(4,5) trace_inv_def
    by (simp add: trace_snoc_TaskDone task_done(1) gets_done_def appends_done_def acks_done_def
        consumer_partial_def tk consumer_trace_snoc)
next
  case (ack_raise i n item)
  from ack_raise_impossible [OF assms(1) ack_raise(1,2)] show ?thesis ..
next
  case (fault i n item)
  from fault_impossible [OF assms(1) fault(1,2)] show ?thesis ..
qed

lemma step_trace_inv:
  assumes "state_inv writable src L cap s" and "trace_inv src es s"
    and "step writable t s = Some (e, s')"
  shows "trace_inv src (es @ [e]) s'"
  using assms
  by (cases t) (auto simp: step_def intro: start_trace_inv producer_trace_inv consumer_trace_inv)

lemma init_trace_inv: "trace_inv src [] (ProducerConsumer_init h a cap)"
  by (simp add: trace_inv_def trace_defs ProducerConsumer_init_def new_list_def pc_defs
      consumer_trace_def consumer_partial_def)

lemma exec_snoc:
  "exec writable (ts @ [t]) s =
     (case exec writable ts s of
        None \<Rightarrow> None
      | Some (es, s1) \<Rightarrow>
          (case step writable t s1 of None \<Rightarrow> None | Some (e, s2) \<Rightarrow> Some (es @ [e], s2)))"
  by (induction ts arbitrary: s) (auto split: option.splits)

lemma exec_inv:
  assumes "state_inv writable src L cap s0" and "trace_inv src [] s0"
  shows "exec writable ts s0 = Some (es, s) \<Longrightarrow>
    state_inv writable src L cap s \<and> trace_inv src es s"
proof (induction ts arbitrary: es s rule: rev_induct)
  case Nil
  with assms show ?case by simp
next
  case (snoc t ts)
  from snoc.prems obtain es1 s1 e where
    1: "exec writable ts s0 = Some (es1, s1)" and 2: "step writable t s1 = Some (e, s)"
    and 3: "es = es1 @ [e]"
    by (auto simp: exec_snoc split: option.splits)
  from snoc.IH [OF 1] have "state_inv writable src L cap s1" "trace_inv src es1 s1" by simp_all
  then show ?case using 2 3 by (auto intro: step_state_inv step_trace_inv)
qed

lemma run_inv:
  assumes "a < length h" and "exec writable ts (ProducerConsumer_init h a cap) = Some (es, s)"
  shows "state_inv writable (h ! a) (length h) cap s" and "trace_inv (h ! a) es s"
  using exec_inv [OF init_state_inv [OF assms(1)] init_trace_inv assms(2)] by simp_all

lemma complete_pcs:
  assumes "state_inv writable src L cap s" and "start_pc s = Complete"
  shows "producer_thread s = PFinished" and "consumer_thread s = CFinished"
  using state_invD(8) [OF assms(1)] assms(2) by (simp_all add: main_ok_def)

lemmas run_defs = ProducerConsumer_init_def new_list_def Queue_init_def step_def start_def
  producer_def consumer_def log_def Queue_put_def Queue_get_def Queue_task_done_def
  Queue_join_def qsize_def producer_ended_def consumer_ended_def Let_def


section \<open>Progress and termination\<close>

lemma init_remaining:
  "a < length h \<Longrightarrow> remaining (ProducerConsumer_init h a cap) = 5 * length (h ! a) + 8"
  by (simp add: remaining_def ProducerConsumer_init_def new_list_def start_remaining_def
      producer_remaining_def consumer_remaining_def nth_append)

lemma start_remaining:
  assumes "state_inv writable src L cap s" and "start s = Some (e, s')"
  shows "Suc (remaining s') = remaining s"
  using assms(2)
proof (cases rule: startE)
  case start_producer
  from state_invD(8) [OF assms(1)] start_producer(1)
  have "producer_thread s = PNotStarted" by (simp add: main_ok_def)
  then show ?thesis unfolding start_producer(3) remaining_def
    by (simp add: start_producer(1) start_remaining_def producer_remaining_def)
next
  case start_consumer
  from state_invD(8) [OF assms(1)] start_consumer(1)
  have "consumer_thread s = CNotStarted" by (simp add: main_ok_def)
  then show ?thesis unfolding start_consumer(3) remaining_def
    by (simp add: start_consumer(1) start_remaining_def consumer_remaining_def)
next
  case join_producer
  show ?thesis unfolding join_producer(4) remaining_def
    by (simp add: join_producer(1) start_remaining_def)
next
  case join_consumer
  show ?thesis unfolding join_consumer(4) remaining_def
    by (simp add: join_consumer(1) start_remaining_def)
next
  case join_queue
  show ?thesis unfolding join_queue(4) remaining_def
    by (simp add: join_queue(1) start_remaining_def)
qed

text \<open>
  A step of the producer takes one off the count, unless it is the log of line 36 raising,
  which ends the thread and takes off all the producer had left.
\<close>

lemma producer_remaining:
  assumes "state_inv writable src L cap s" and "producer writable s = Some (e, s')"
  shows "Suc (remaining s') \<le> remaining s"
    and "(\<forall>x\<in>set src. writable x) \<Longrightarrow> Suc (remaining s') = remaining s"
proof -
  have "Suc (remaining s') \<le> remaining s \<and>
    ((\<forall>x\<in>set src. writable x) \<longrightarrow> Suc (remaining s') = remaining s)"
    using assms(2)
  proof (cases rule: producerE)
    case (fetch i)
    then have "Suc (remaining s') = remaining s" unfolding fetch(5) remaining_def
      by (simp add: fetch(1) producer_remaining_def)
    then show ?thesis by simp
  next
    case (fetch_raise i)
    note inv = state_invD [OF assms(1)]
    from fetch_raise(2,3) inv(2,4) have i: "i < length src" "\<not> writable (src ! i)" by simp_all
    then have "\<not> (\<forall>x\<in>set src. writable x)" using nth_mem by blast
    moreover have "Suc (remaining s') \<le> remaining s" unfolding fetch_raise(5) remaining_def
      by (simp add: fetch_raise(1) producer_remaining_def)
    ultimately show ?thesis by blast
  next
    case (finish i)
    then have "Suc (remaining s') = remaining s" unfolding finish(4) remaining_def
      by (simp add: finish(1) producer_remaining_def)
    then show ?thesis by simp
  next
    case (put i item)
    have "Suc (remaining s') = remaining s" unfolding put(5) remaining_def
      by (simp add: put(1) producer_remaining_def)
    then show ?thesis by simp
  next
    case (put_raise i item)
    from put_raise_impossible [OF assms(1) put_raise(1,2)] show ?thesis ..
  qed
  then show "Suc (remaining s') \<le> remaining s"
    and "(\<forall>x\<in>set src. writable x) \<Longrightarrow> Suc (remaining s') = remaining s" by simp_all
qed

lemma consumer_remaining:
  assumes "state_inv writable src L cap s" and "consumer writable s = Some (e, s')"
  shows "Suc (remaining s') = remaining s"
  using assms(2)
proof (cases rule: consumerE)
  case enter
  show ?thesis unfolding enter(3) remaining_def
    by (simp add: enter(1) consumer_remaining_def)
next
  case (get i n item rest)
  note inv = state_invD [OF assms(1)]
  from inv(7) get(2) have "i < length src" by (simp add: get(1) consumer_ok_def)
  with inv(2,4) show ?thesis unfolding get(6) remaining_def
    by (simp add: get(1) consumer_remaining_def)
next
  case (get_raise i n item rest)
  from get_raise_impossible [OF assms(1) get_raise(1,3,4)] show ?thesis ..
next
  case (finish i n)
  note inv = state_invD [OF assms(1)]
  from inv(7) finish(2) have "i = length src" by (simp add: finish(1) consumer_ok_def)
  with inv(2,4) show ?thesis unfolding finish(4) remaining_def
    by (simp add: finish(1) consumer_remaining_def)
next
  case (append i n item)
  note inv = state_invD [OF assms(1)]
  from inv(7) have "i < length src" by (simp add: append(1) consumer_ok_def)
  with inv(1,2,3,4) show ?thesis unfolding append(3) remaining_def
    by (simp add: append(1) consumer_remaining_def)
next
  case (task_done i n item)
  note inv = state_invD [OF assms(1)]
  from inv(7) have "i < length src" by (simp add: task_done(1) consumer_ok_def)
  with inv(2,4) show ?thesis unfolding task_done(5) remaining_def
    by (simp add: task_done(1) consumer_remaining_def)
next
  case (ack_raise i n item)
  from ack_raise_impossible [OF assms(1) ack_raise(1,2)] show ?thesis ..
next
  case (fault i n item)
  from fault_impossible [OF assms(1) fault(1,2)] show ?thesis ..
qed

lemma step_remaining:
  assumes "state_inv writable src L cap s" and "step writable t s = Some (e, s')"
  shows "Suc (remaining s') \<le> remaining s"
    and "(\<forall>x\<in>set src. writable x) \<Longrightarrow> Suc (remaining s') = remaining s"
proof -
  show "Suc (remaining s') \<le> remaining s"
  proof (cases t)
    case MainThread
    with assms(2) have "start s = Some (e, s')" by (simp add: step_def)
    from start_remaining [OF assms(1) this] show ?thesis by simp
  next
    case ProducerThread
    with assms(2) have "producer writable s = Some (e, s')" by (simp add: step_def)
    from producer_remaining(1) [OF assms(1) this] show ?thesis .
  next
    case ConsumerThread
    with assms(2) have "consumer writable s = Some (e, s')" by (simp add: step_def)
    from consumer_remaining [OF assms(1) this] show ?thesis by simp
  qed
  show "Suc (remaining s') = remaining s" if w: "\<forall>x\<in>set src. writable x"
  proof (cases t)
    case MainThread
    with assms(2) have "start s = Some (e, s')" by (simp add: step_def)
    from start_remaining [OF assms(1) this] show ?thesis .
  next
    case ProducerThread
    with assms(2) have "producer writable s = Some (e, s')" by (simp add: step_def)
    from producer_remaining(2) [OF assms(1) this w] show ?thesis .
  next
    case ConsumerThread
    with assms(2) have "consumer writable s = Some (e, s')" by (simp add: step_def)
    from consumer_remaining [OF assms(1) this] show ?thesis .
  qed
qed

lemma exec_state_inv:
  assumes "state_inv writable src L cap s0"
  shows "exec writable ts s0 = Some (es, s) \<Longrightarrow> state_inv writable src L cap s"
proof (induction ts arbitrary: es s rule: rev_induct)
  case Nil
  with assms show ?case by simp
next
  case (snoc t ts)
  then show ?case
    by (auto simp: exec_snoc split: option.splits intro: step_state_inv)
qed

lemma exec_remaining:
  assumes "state_inv writable src L cap s0"
  shows "exec writable ts s0 = Some (es, s) \<Longrightarrow> length ts + remaining s \<le> remaining s0"
proof (induction ts arbitrary: es s rule: rev_induct)
  case Nil
  then show ?case by simp
next
  case (snoc t ts)
  from snoc.prems obtain es1 s1 e where
    1: "exec writable ts s0 = Some (es1, s1)" and 2: "step writable t s1 = Some (e, s)"
    by (auto simp: exec_snoc split: option.splits)
  note inv1 = exec_state_inv [OF assms 1]
  from snoc.IH [OF 1] step_remaining(1) [OF inv1 2] show ?case by simp
qed


text \<open>
  When the log can write every item of the source, the producer is never ended by an
  exception, and in every state short of \<open>Complete\<close> some thread can take a step.
\<close>

lemma producer_not_raised:
  assumes "state_inv writable src L cap s" and "\<forall>x\<in>set src. writable x"
  shows "producer_thread s \<noteq> PRaised k e"
proof
  assume "producer_thread s = PRaised k e"
  with state_invD(6) [OF assms(1)] have "k < length src" "\<not> writable (src ! k)"
    by (simp_all add: producer_ok_def)
  with assms(2) show False using nth_mem by blast
qed

lemma progress:
  assumes "state_inv writable src L cap s" and "\<forall>x\<in>set src. writable x"
    and "start_pc s \<noteq> Complete"
  shows "\<exists>t e s'. step writable t s = Some (e, s')"
proof -
  note inv = state_invD [OF assms(1)]
  let ?p = "puts_done (length src) (producer_thread s)"
  let ?g = "gets_done (length src) (consumer_thread s)"
  have main: ?thesis if "start s \<noteq> None"
  proof -
    from that obtain e s' where "step writable MainThread s = Some (e, s')"
      by (auto simp: step_def)
    then show ?thesis by blast
  qed
  have prod: ?thesis if "producer writable s \<noteq> None"
  proof -
    from that obtain e s' where "step writable ProducerThread s = Some (e, s')"
      by (auto simp: step_def)
    then show ?thesis by blast
  qed
  have cons: ?thesis if "consumer writable s \<noteq> None"
  proof -
    from that obtain e s' where "step writable ConsumerThread s = Some (e, s')"
      by (auto simp: step_def)
    then show ?thesis by blast
  qed
  \<comment> \<open>a started consumer that has not ended can move unless it waits on an empty queue\<close>
  have cons_moves: "consumer writable s \<noteq> None"
    if c: "consumer_thread s \<noteq> CNotStarted" "consumer_thread s \<noteq> CFinished"
      and q: "?g < length src \<Longrightarrow> queue (shared_queue s) \<noteq> []"
  proof (cases "consumer_thread s")
    case (CNext i n)
    with inv(7) have n: "n = length src" "i \<le> n" by (simp_all add: consumer_ok_def)
    show ?thesis
    proof (cases "i < n")
      case True
      with q n CNext have "queue (shared_queue s) \<noteq> []" by (simp add: gets_done_def)
      then show ?thesis
        by (cases "queue (shared_queue s)")
          (simp_all add: consumer_def CNext True Queue_get_def log_def)
    next
      case False
      then show ?thesis by (simp add: consumer_def CNext)
    qed
  next
    case (CTaskDone i n item)
    then show ?thesis
      by (simp add: consumer_def Queue_task_done_def log_def Let_def)
  next
    case (CRaised e)
    with inv(7) show ?thesis by (simp add: consumer_ok_def)
  qed (use c in \<open>simp_all add: consumer_def\<close>)
  show ?thesis
  proof (cases "start_pc s")
    case StartProducer
    then show ?thesis by (intro main) (simp add: start_def)
  next
    case StartConsumer
    then show ?thesis by (intro main) (simp add: start_def)
  next
    case JoinProducer
    with inv(8) have st: "producer_thread s \<noteq> PNotStarted" "consumer_thread s \<noteq> CNotStarted"
      by (simp_all add: main_ok_def)
    show ?thesis
    proof (cases "producer_thread s")
      case PNotStarted
      with st show ?thesis by simp
    next
      case (PNext i)
      then show ?thesis by (intro prod) (simp add: producer_def log_def Let_def)
    next
      case PFinished
      with JoinProducer show ?thesis
        by (intro main) (simp add: start_def producer_ended_def)
    next
      case (PRaised k e)
      with JoinProducer show ?thesis
        by (intro main) (simp add: start_def producer_ended_def)
    next
      case (PPut i item)
      show ?thesis
      proof (cases "Queue_put (shared_queue s) item")
        case (Some q)
        then show ?thesis by (intro prod) (simp add: producer_def PPut log_def)
      next
        case None
        then have full: "0 < cap" "cap \<le> int (length (queue (shared_queue s)))"
          using inv(5) by (auto simp: Queue_put_def qsize_def split: if_splits)
        then have ne: "queue (shared_queue s) \<noteq> []" by auto
        with inv(10) have gp: "?g < ?p" by (cases "?g < ?p") auto
        from inv(6) PPut have "?p < length src" by (auto simp: pc_defs)
        with gp have "consumer_thread s \<noteq> CFinished" by (auto simp: gets_done_def)
        with st ne show ?thesis by (intro cons cons_moves) simp_all
      qed
    qed
  next
    case JoinConsumer
    with inv(8) have st: "producer_ended s" "consumer_thread s \<noteq> CNotStarted"
      by (simp_all add: main_ok_def)
    from st(1) producer_not_raised [OF assms(1,2)] have p: "producer_thread s = PFinished"
      by (auto simp: producer_ended_iff)
    show ?thesis
    proof (cases "consumer_thread s = CFinished")
      case True
      with JoinConsumer show ?thesis
        by (intro main) (simp add: start_def consumer_ended_def)
    next
      case False
      have "queue (shared_queue s) \<noteq> []" if "?g < length src"
        using inv(10) that by (simp add: p puts_done_def)
      with st False show ?thesis by (intro cons cons_moves) simp_all
    qed
  next
    case JoinQueue
    with inv(8) have st: "producer_thread s = PFinished" "consumer_thread s = CFinished"
      by (simp_all add: main_ok_def)
    with inv(12) have "unfinished_tasks (shared_queue s) = 0"
      by (simp add: puts_done_def acks_done_def)
    with JoinQueue show ?thesis
      by (intro main) (simp add: start_def Queue_join_def)
  next
    case Complete
    with assms(3) show ?thesis by simp
  qed
qed

lemma can_complete:
  assumes "state_inv writable src L cap s" and "\<forall>x\<in>set src. writable x"
  shows "\<exists>ts es s'. exec writable ts s = Some (es, s') \<and> start_pc s' = Complete"
  using assms(1)
proof (induction "remaining s" arbitrary: s rule: less_induct)
  case less
  show ?case
  proof (cases "start_pc s = Complete")
    case True
    then have "exec writable [] s = Some ([], s) \<and> start_pc s = Complete" by simp
    then show ?thesis by blast
  next
    case False
    from progress [OF less.prems assms(2) False] obtain t e s1
      where 1: "step writable t s = Some (e, s1)"
      by blast
    from step_remaining(1) [OF less.prems 1] have "remaining s1 < remaining s" by simp
    from less.hyps [OF this step_state_inv [OF less.prems 1]]
    obtain ts es s' where 2: "exec writable ts s1 = Some (es, s')" "start_pc s' = Complete"
      by blast
    from 1 2 have "exec writable (t # ts) s = Some (e # es, s') \<and> start_pc s' = Complete"
      by simp
    then show ?thesis by blast
  qed
qed


section \<open>Traces, frames and the caller's list\<close>





lemma producer_frame:
  assumes "producer writable s = Some (e, s')"
  shows "heap s' = heap s" "source s' = source s" "destination s' = destination s"
    "consumer_thread s' = consumer_thread s" "start_pc s' = start_pc s" "\<forall>x. e \<noteq> Append x"
  using assms by (cases rule: producerE; simp)+

lemma start_frame:
  assumes "start s = Some (e, s')"
  shows "heap s' = heap s" "source s' = source s" "destination s' = destination s"
    "shared_queue s' = shared_queue s" "e = Silent"
  using assms by (cases rule: startE; simp)+

lemma consumer_frame:
  assumes "consumer writable s = Some (e, s')"
  shows "source s' = source s" "destination s' = destination s"
    "producer_thread s' = producer_thread s" "start_pc s' = start_pc s" "\<forall>x. e \<noteq> Put x"
  using assms by (cases rule: consumerE; simp)+

lemma step_frame:
  assumes "step writable t s = Some (e, s')"
  shows "source s' = source s" and "destination s' = destination s"
  using assms
  by (cases t; auto simp: step_def dest: start_frame(2,3) producer_frame(2,3) consumer_frame(1,2))+

lemma caller_mutates_fields [simp]:
  "source (caller_mutates a ys s) = source s"
  "destination (caller_mutates a ys s) = destination s"
  "shared_queue (caller_mutates a ys s) = shared_queue s"
  "producer_thread (caller_mutates a ys s) = producer_thread s"
  "consumer_thread (caller_mutates a ys s) = consumer_thread s"
  "start_pc (caller_mutates a ys s) = start_pc s"
  "heap (caller_mutates a ys s) = (heap s)[a := ys]"
  by (simp_all add: caller_mutates_def)

lemma start_caller_mutates:
  "start (caller_mutates a ys s) = map_option (apsnd (caller_mutates a ys)) (start s)"
  by (cases "start_pc s")
    (simp_all add: start_def producer_ended_def consumer_ended_def Queue_join_def
      caller_mutates_def)

lemma producer_caller_mutates:
  assumes "source s \<noteq> a"
  shows "producer writable (caller_mutates a ys s)
    = map_option (apsnd (caller_mutates a ys)) (producer writable s)"
proof (cases "producer_thread s")
  case (PNext i)
  with assms show ?thesis
    by (simp add: producer_def log_def Let_def caller_mutates_def)
next
  case (PPut i item)
  then show ?thesis
    by (cases "Queue_put (shared_queue s) item")
      (simp_all add: producer_def log_def caller_mutates_def)
qed (simp_all add: producer_def)

lemma consumer_caller_mutates:
  assumes "source s \<noteq> a" and "destination s \<noteq> a"
  shows "consumer writable (caller_mutates a ys s)
    = map_option (apsnd (caller_mutates a ys)) (consumer writable s)"
proof (cases "consumer_thread s")
  case CBegin
  with assms show ?thesis
    by (simp add: consumer_def)
next
  case (CNext i n)
  then show ?thesis
    by (cases "Queue_get (shared_queue s)")
      (auto simp: consumer_def log_def caller_mutates_def)
next
  case (CAppend i n item)
  with assms show ?thesis
    by (simp add: consumer_def caller_mutates_def list_update_swap)
next
  case (CTaskDone i n item)
  then show ?thesis
    by (cases "Queue_task_done (shared_queue s)")
      (simp_all add: consumer_def log_def caller_mutates_def)
qed (simp_all add: consumer_def)

lemma step_caller_mutates:
  assumes "source s \<noteq> a" and "destination s \<noteq> a"
  shows "step writable t (caller_mutates a ys s)
    = map_option (apsnd (caller_mutates a ys)) (step writable t s)"
  using assms
  by (cases t)
    (simp_all add: step_def start_caller_mutates producer_caller_mutates consumer_caller_mutates)

lemma exec_caller_mutates:
  assumes "source s \<noteq> a" and "destination s \<noteq> a"
  shows "exec writable ts (caller_mutates a ys s)
    = map_option (apsnd (caller_mutates a ys)) (exec writable ts s)"
  using assms
proof (induction ts arbitrary: s)
  case Nil
  then show ?case by simp
next
  case (Cons t ts)
  show ?case
  proof (cases "step writable t s")
    case None
    with Cons.prems show ?thesis by (simp add: step_caller_mutates)
  next
    case (Some r)
    obtain e s1 where r: "r = (e, s1)" by (cases r)
    from step_frame [of writable t s e s1] Some r Cons.prems
    have "source s1 \<noteq> a" "destination s1 \<noteq> a" by simp_all
    from Cons.IH [OF this] Some r Cons.prems show ?thesis
      by (simp add: step_caller_mutates split: option.splits)
  qed
qed


text \<open>
  A run that has reached \<open>Complete\<close> has put every item, so the log could write each one:
  with an item it cannot write, no run is ever in \<open>Complete\<close>.
\<close>

lemma complete_all_writable:
  assumes "state_inv writable src L cap s" and "start_pc s = Complete"
  shows "\<forall>x\<in>set src. writable x"
proof -
  from state_invD(14) [OF assms(1)] complete_pcs(1) [OF assms]
  have "\<forall>j<length src. writable (src ! j)" by (simp add: puts_done_def)
  then show ?thesis by (auto simp: in_set_conv_nth)
qed


section \<open>Runs on concrete inputs\<close>

text \<open>The items of these sources are integers, which the log can always write.\<close>

lemma demo_run:
  "exec (\<lambda>x. True) demo_schedule (ProducerConsumer_init [[1, 2]] 0 1)
     = Some (demo_events, demo_final)"
  by (simp add: demo_schedule_def demo_events_def demo_final_def run_defs)

lemma alt_run:
  "exec (\<lambda>x. True) alt_schedule (ProducerConsumer_init [[1, 2]] 0 1)
     = Some (alt_events, demo_final)"
  by (simp add: alt_schedule_def alt_events_def demo_final_def run_defs)

lemma full_run:
  "exec (\<lambda>x. True) full_schedule (ProducerConsumer_init [[1, 2]] 0 1)
     = Some (full_events, full_state)"
  by (simp add: full_schedule_def full_events_def full_state_def run_defs)

lemma empty_run:
  "exec (\<lambda>x. True) empty_schedule (ProducerConsumer_init [[]] 0 2)
     = Some (replicate 8 Silent, empty_final)"
  by (simp add: empty_schedule_def empty_final_def run_defs eval_nat_numeral)

lemma unbounded_run:
  "exec (\<lambda>x. True) unbounded_schedule (ProducerConsumer_init [[1, 2]] 0 0)
     = Some ([Silent, Silent, Silent, Put 1, Silent, Put 2], unbounded_state)"
  by (simp add: unbounded_schedule_def unbounded_state_def run_defs)

text \<open>In \<open>full_state\<close> the queue of capacity one is full and the producer waits in \<^verbatim>\<open>put\<close>.\<close>

lemma full_state_blocked:
  "producer_blocked full_state \<and> step (\<lambda>x. True) ProducerThread full_state = None"
  by (simp add: full_state_def producer_blocked_def run_defs)


section \<open>The claims\<close>

text \<open>
  C1. In every run that reaches \<open>Complete\<close>, the destination list equals the source list,
  element by element and in order, and the items put by the producer are, in the same
  order, the items appended to the destination.
\<close>

theorem order_preservation:
  assumes "a < length h"
    and "exec writable ts (ProducerConsumer_init h a cap) = Some (es, s)"
    and "start_pc s = Complete"
  shows "heap s ! destination s = h ! a \<and> heap s ! destination s = heap s ! source s \<and>
         put_items es = h ! a \<and> append_items es = h ! a \<and> put_items es = append_items es"
proof -
  note inv = run_inv [OF assms(1,2)]
  note pcs = complete_pcs [OF inv(1) assms(3)]
  note st = state_invD [OF inv(1)]
  note tr = trace_invD [OF inv(2)]
  from st(3,11) have "heap s ! destination s = h ! a" by (simp add: pcs appends_done_def)
  moreover from st(2,4) have "heap s ! source s = h ! a" by simp
  moreover from tr(1) have "put_items es = h ! a" by (simp add: pcs puts_done_def)
  moreover from tr(3) have "append_items es = h ! a" by (simp add: pcs appends_done_def)
  ultimately show ?thesis by simp
qed

theorem order_preservation_witness:
  "(0::nat) < length [[1::int, 2]] \<and>
   exec (\<lambda>x. True) demo_schedule (ProducerConsumer_init [[1, 2]] 0 1) = Some (demo_events, demo_final) \<and>
   start_pc demo_final = Complete \<and>
   heap demo_final ! destination demo_final = [1, 2] \<and>
   put_items demo_events = [1, 2] \<and> append_items demo_events = [1, 2]"
  using order_preservation [OF _ demo_run] demo_run by (simp add: demo_final_def)

text \<open>
  C2, as the code has it. A capacity below one is not rejected: the constructor builds the
  queue with that \<open>maxsize\<close>, both threads are started, and no \<^verbatim>\<open>put\<close> ever waits. The first
  theorem below is the claim failing at capacity zero: after the constructor and the first
  two steps of \<^verbatim>\<open>start\<close>, both units are started.
\<close>

theorem capacity_zero_counterexample:
  "exec (\<lambda>x. True) [MainThread, MainThread] (ProducerConsumer_init [[1::int]] 0 0) =
     Some ([Silent, Silent],
           \<lparr>heap = [[1], [1], []], source = 1, destination = 2,
            shared_queue = \<lparr>maxsize = 0, queue = [], unfinished_tasks = 0\<rparr>,
            producer_thread = PNext 0, consumer_thread = CBegin, start_pc = JoinProducer\<rparr>)"
  by (simp add: run_defs)

theorem nonpositive_capacity_is_unbounded:
  assumes "a < length h" and "cap < 1"
    and "exec writable ts (ProducerConsumer_init h a cap) = Some (es, s)"
  shows "maxsize (shared_queue (ProducerConsumer_init h a cap)) = cap \<and>
         exec writable [MainThread, MainThread] (ProducerConsumer_init h a cap) =
           Some ([Silent, Silent],
                 (ProducerConsumer_init h a cap)
                   \<lparr>producer_thread := PNext 0, consumer_thread := CBegin,
                    start_pc := JoinProducer\<rparr>) \<and>
         (\<forall>item. Queue_put (shared_queue s) item \<noteq> None) \<and> \<not> producer_blocked s"
proof -
  note inv = run_inv [OF assms(1,3)]
  note st = state_invD [OF inv(1)]
  have "maxsize (shared_queue (ProducerConsumer_init h a cap)) = cap"
    by (simp add: ProducerConsumer_init_def new_list_def Queue_init_def)
  moreover have "exec writable [MainThread, MainThread] (ProducerConsumer_init h a cap) =
           Some ([Silent, Silent],
                 (ProducerConsumer_init h a cap)
                   \<lparr>producer_thread := PNext 0, consumer_thread := CBegin,
                    start_pc := JoinProducer\<rparr>)"
    by (simp add: ProducerConsumer_init_def new_list_def step_def start_def)
  moreover have put: "Queue_put (shared_queue s) item \<noteq> None" for item
    using st(5) assms(2) by (simp add: Queue_put_def)
  moreover have "\<not> producer_blocked s"
    using put by (cases "producer_thread s") (auto simp: producer_blocked_def split: option.splits)
  ultimately show ?thesis by blast
qed

theorem nonpositive_capacity_is_unbounded_witness:
  "(0::nat) < length [[1::int, 2]] \<and> (0::int) < 1 \<and>
   exec (\<lambda>x. True) unbounded_schedule (ProducerConsumer_init [[1, 2]] 0 0)
     = Some ([Silent, Silent, Silent, Put 1, Silent, Put 2], unbounded_state) \<and>
   int (qsize (shared_queue unbounded_state)) = 2 \<and> \<not> producer_blocked unbounded_state"
  using nonpositive_capacity_is_unbounded [OF _ _ unbounded_run] unbounded_run
  by (simp add: unbounded_state_def qsize_def)

text \<open>
  C3. \<open>Complete\<close> is reached only after every item has been taken, appended to the
  destination and acknowledged: in a run that ends in \<open>Complete\<close>, the number of
  \<^verbatim>\<open>task_done\<close> events equals the length of the source, the items taken and the items
  appended are the source, and no task is unfinished.
\<close>

theorem complete_after_all_acknowledged:
  assumes "a < length h"
    and "exec writable ts (ProducerConsumer_init h a cap) = Some (es, s)"
    and "start_pc s = Complete"
  shows "acknowledged es = length (h ! a) \<and> get_items es = h ! a \<and> append_items es = h ! a \<and>
         unfinished_tasks (shared_queue s) = 0 \<and> queue (shared_queue s) = []"
proof -
  note inv = run_inv [OF assms(1,2)]
  note pcs = complete_pcs [OF inv(1) assms(3)]
  note st = state_invD [OF inv(1)]
  note tr = trace_invD [OF inv(2)]
  from tr(4) have "acknowledged es = length (h ! a)" by (simp add: pcs acks_done_def)
  moreover from tr(2) have "get_items es = h ! a" by (simp add: pcs gets_done_def)
  moreover from tr(3) have "append_items es = h ! a" by (simp add: pcs appends_done_def)
  moreover from st(12) have "unfinished_tasks (shared_queue s) = 0"
    by (simp add: pcs puts_done_def acks_done_def)
  moreover from st(10) have "queue (shared_queue s) = []"
    by (simp add: pcs puts_done_def gets_done_def)
  ultimately show ?thesis by simp
qed

theorem complete_after_all_acknowledged_witness:
  "(0::nat) < length [[1::int, 2]] \<and>
   exec (\<lambda>x. True) alt_schedule (ProducerConsumer_init [[1, 2]] 0 1) = Some (alt_events, demo_final) \<and>
   start_pc demo_final = Complete \<and>
   acknowledged alt_events = 2 \<and> get_items alt_events = [1, 2]"
  using complete_after_all_acknowledged [OF _ alt_run] alt_run by (simp add: demo_final_def)

text \<open>
  C4. With a capacity of at least one, the number of items in the queue is between zero
  and the capacity in every state of every run, and a \<^verbatim>\<open>put\<close> that returns leaves the queue
  within the capacity.
\<close>

theorem capacity_bound:
  assumes "a < length h" and "1 \<le> cap"
    and "exec writable ts (ProducerConsumer_init h a cap) = Some (es, s)"
  shows "0 \<le> int (qsize (shared_queue s)) \<and> int (qsize (shared_queue s)) \<le> cap \<and>
         (\<forall>item q. Queue_put (shared_queue s) item = Some q \<longrightarrow> int (qsize q) \<le> cap)"
proof -
  note inv = run_inv [OF assms(1,3)]
  note st = state_invD [OF inv(1)]
  from st(13) assms(2) have "int (qsize (shared_queue s)) \<le> cap" by (simp add: qsize_def)
  moreover have "int (qsize q) \<le> cap" if "Queue_put (shared_queue s) item = Some q" for item q
    using that st(5) assms(2) by (auto simp: Queue_put_def qsize_def split: if_splits)
  ultimately show ?thesis by simp
qed

theorem capacity_bound_witness:
  "(0::nat) < length [[1::int, 2]] \<and> (1::int) \<le> 1 \<and>
   exec (\<lambda>x. True) full_schedule (ProducerConsumer_init [[1, 2]] 0 1) = Some (full_events, full_state) \<and>
   int (qsize (shared_queue full_state)) \<le> 1"
  using capacity_bound [OF _ _ full_run] full_run by simp



text \<open>
  C6. With an empty source, in every state of every run the destination is empty,
  neither the producer nor the consumer is waiting inside the queue, nothing is put or
  taken, the run has at most eight steps, and it can be continued to \<open>Complete\<close>, where the
  success flag holds and the destination is empty.
\<close>

theorem empty_source_completes:
  assumes "a < length h" and "h ! a = []"
    and "exec writable ts (ProducerConsumer_init h a cap) = Some (es, s)"
  shows "heap s ! destination s = [] \<and> \<not> producer_blocked s \<and> \<not> consumer_blocked s \<and>
         put_items es = [] \<and> get_items es = [] \<and> length ts \<le> 8 \<and>
         (\<exists>ts' es' s'. exec writable ts' s = Some (es', s') \<and> start_pc s' = Complete \<and> success s' \<and>
            heap s' ! destination s' = [])"
proof -
  note inv0 = init_state_inv [OF assms(1), of writable cap]
  note inv = run_inv [OF assms(1,3)]
  note st = state_invD [OF inv(1)]
  note tr = trace_invD [OF inv(2)]
  have w: "\<forall>x\<in>set (h ! a). writable x" by (simp add: assms(2))
  from st(3,11) have "heap s ! destination s = []" by (simp add: assms(2))
  moreover from st(6) have "\<not> producer_blocked s"
    by (cases "producer_thread s") (simp_all add: producer_blocked_def producer_ok_def assms(2))
  moreover from st(7) have "\<not> consumer_blocked s"
    by (cases "consumer_thread s") (simp_all add: consumer_blocked_def consumer_ok_def assms(2))
  moreover from tr(1) have "put_items es = []" by (simp add: assms(2))
  moreover from tr(2) have "get_items es = []" by (simp add: assms(2))
  moreover from exec_remaining [OF inv0 assms(3)] init_remaining [OF assms(1), of cap]
  have "length ts \<le> 8" by (simp add: assms(2))
  moreover have "\<exists>ts' es' s'. exec writable ts' s = Some (es', s') \<and> start_pc s' = Complete \<and>
      success s' \<and> heap s' ! destination s' = []"
  proof -
    from can_complete [OF inv(1) w] obtain ts' es' s' where
      r: "exec writable ts' s = Some (es', s')" and c: "start_pc s' = Complete" by blast
    note st' = state_invD [OF exec_state_inv [OF inv(1) r]]
    from st'(3,11) have d: "heap s' ! destination s' = []" by (simp add: assms(2))
    from st'(2,4) have "heap s' ! source s' = []" by (simp add: assms(2))
    with d have "success s'" by (simp add: success_def)
    with r c d show ?thesis by blast
  qed
  ultimately show ?thesis by blast
qed

theorem empty_source_completes_witness:
  "(0::nat) < length [[]::int list] \<and> [[]::int list] ! 0 = [] \<and>
   exec (\<lambda>x. True) empty_schedule (ProducerConsumer_init [[]] 0 2) = Some (replicate 8 Silent, empty_final) \<and>
   start_pc empty_final = Complete \<and> put_items (replicate 8 Silent :: int event list) = [] \<and>
   heap empty_final ! destination empty_final = []"
  using empty_source_completes [OF _ _ empty_run] empty_run by (simp add: empty_final_def)






text \<open>
  C9. The constructor stores the source in a newly allocated list, with the elements of
  the caller's list. When the caller changes its own list at any point of a run, the rest
  of the run is the same up to that one cell of the store: the source and the destination
  read the same. In every state of a run the stored source is the list passed at
  construction, and the success flag compares the destination with it.
\<close>

theorem source_is_private_copy:
  assumes "a < length h"
    and "exec writable ts1 (ProducerConsumer_init h a cap) = Some (es1, s1)"
  shows "length h \<le> source (ProducerConsumer_init h a cap) \<and>
         heap (ProducerConsumer_init h a cap) ! source (ProducerConsumer_init h a cap) = h ! a \<and>
         exec writable ts2 (caller_mutates a ys s1)
           = map_option (apsnd (caller_mutates a ys)) (exec writable ts2 s1) \<and>
         heap (caller_mutates a ys s1) ! source s1 = h ! a \<and>
         heap (caller_mutates a ys s1) ! destination s1 = heap s1 ! destination s1 \<and>
         heap s1 ! source s1 = h ! a \<and>
         success s1 = (h ! a = heap s1 ! destination s1)"
proof -
  note inv = run_inv [OF assms]
  note st = state_invD [OF inv(1)]
  note st0 = state_invD [OF init_state_inv [OF assms(1), of writable cap]]
  from st(2,3) assms(1) have ne: "source s1 \<noteq> a" "destination s1 \<noteq> a" by simp_all
  from st0(2) have "length h \<le> source (ProducerConsumer_init h a cap)" by simp
  moreover from st0(2,4)
  have "heap (ProducerConsumer_init h a cap) ! source (ProducerConsumer_init h a cap) = h ! a"
    by simp
  moreover note exec_caller_mutates [OF ne, where ts = ts2 and ys = ys and writable = writable]
  moreover from ne st(2,4) have "heap (caller_mutates a ys s1) ! source s1 = h ! a"
    by simp
  moreover from ne have
    "heap (caller_mutates a ys s1) ! destination s1 = heap s1 ! destination s1"
    by simp
  moreover from st(2,4) have src: "heap s1 ! source s1 = h ! a" by simp
  moreover have "success s1 = (h ! a = heap s1 ! destination s1)"
    by (simp add: success_def src)
  ultimately show ?thesis by blast
qed

theorem source_is_private_copy_witness:
  "(0::nat) < length [[1::int, 2]] \<and>
   exec (\<lambda>x. True) full_schedule (ProducerConsumer_init [[1, 2]] 0 1) = Some (full_events, full_state) \<and>
   exec (\<lambda>x. True) [ConsumerThread, ConsumerThread] (caller_mutates 0 [9] full_state) =
     map_option (apsnd (caller_mutates 0 [9])) (exec (\<lambda>x. True) [ConsumerThread, ConsumerThread] full_state) \<and>
   heap (caller_mutates 0 [9] full_state) ! source full_state = [1, 2]"
  using source_is_private_copy [OF _ full_run, where ?ts2.0 = "[ConsumerThread, ConsumerThread]" and ys = "[9]"] full_run
  by simp

text \<open>
  C10. For a fixed source and a fixed capacity of at least one, any two runs that reach
  \<open>Complete\<close> have the same destination list, the same success flag and the same sequence
  of appended items, whatever the schedules.
\<close>

theorem deterministic_result:
  assumes "a < length h" and "1 \<le> cap"
    and "exec writable ts1 (ProducerConsumer_init h a cap) = Some (es1, s1)"
    and "exec writable ts2 (ProducerConsumer_init h a cap) = Some (es2, s2)"
    and "start_pc s1 = Complete" and "start_pc s2 = Complete"
  shows "heap s1 ! destination s1 = heap s2 ! destination s2 \<and> success s1 = success s2 \<and>
         append_items es1 = append_items es2"
proof -
  have *: "heap s ! destination s = h ! a \<and> heap s ! source s = h ! a \<and> append_items es = h ! a"
    if r: "exec writable ts (ProducerConsumer_init h a cap) = Some (es, s)" and c: "start_pc s = Complete"
    for ts es s
  proof -
    note inv = run_inv [OF assms(1) r]
    note pcs = complete_pcs [OF inv(1) c]
    note st = state_invD [OF inv(1)]
    note tr = trace_invD [OF inv(2)]
    from st(3,11) have "heap s ! destination s = h ! a" by (simp add: pcs appends_done_def)
    moreover from st(2,4) have "heap s ! source s = h ! a" by simp
    moreover from tr(3) have "append_items es = h ! a" by (simp add: pcs appends_done_def)
    ultimately show ?thesis by simp
  qed
  from * [OF assms(3,5)] * [OF assms(4,6)] show ?thesis by (simp add: success_def)
qed

theorem deterministic_result_witness:
  "(0::nat) < length [[1::int, 2]] \<and> (1::int) \<le> 1 \<and>
   exec (\<lambda>x. True) demo_schedule (ProducerConsumer_init [[1, 2]] 0 1) = Some (demo_events, demo_final) \<and>
   exec (\<lambda>x. True) alt_schedule (ProducerConsumer_init [[1, 2]] 0 1) = Some (alt_events, demo_final) \<and>
   start_pc demo_final = Complete \<and> demo_schedule \<noteq> alt_schedule \<and>
   append_items demo_events = append_items alt_events"
  using deterministic_result [OF _ _ demo_run alt_run] demo_run alt_run
  by (simp add: demo_final_def demo_schedule_def alt_schedule_def)

end
